theory Spec2Isabelle
  imports Main "HOL-Library.Word" "HOL-Library.Multiset"
begin

unbundle bit_operations_syntax

section \<open>Machine integers and the SSA scratch buffer\<close>

type_synonym u8 = "8 word"
type_synonym u16 = "16 word"
type_synonym u32 = "32 word"
type_synonym u64 = "64 word"
type_synonym u128 = "128 word"

text \<open>
  The handlers end in a fatal diagnostic (\<open>LOGMAN_MSG_A_FMT\<close>, \<open>LOGMAN_THROW_A_FMT\<close>) on
  an operation size they do not handle; a division by zero and a table index out of range
  are not checked by the C++ and are faults of the model.
\<close>

datatype fault = UnknownSize | AssertFailed | DivideByZero | OutOfBounds

text \<open>
  Modelled from the spec: the scratch buffer \<open>Data->SSAData\<close> and its accessors
  \<open>GetSrc\<close>, \<open>GetDest\<close> (\<open>InterpreterDefines.h\<close> is not among the sources). Every node
  id has a slot of 16 bytes; a slot is the little-endian value of its bytes.
  \<open>*GetSrc<T*>(Data->SSAData, n)\<close> reads the low \<open>sizeof(T)\<close> bytes of slot \<open>n\<close>.
\<close>

type_synonym ssadata = "u32 \<Rightarrow> u128"

definition GetSrc :: "ssadata \<Rightarrow> u32 \<Rightarrow> 'a::len word" where
  "GetSrc D n = ucast (D n)"

text \<open>
  Modelled from the spec: a store of a \<open>T\<close> through a pointer to the slot replaces the low
  \<open>sizeof(T)\<close> bytes of the slot and leaves the others as they were.
\<close>

definition store_low :: "'a::len word \<Rightarrow> u128 \<Rightarrow> u128" where
  "store_low v s = (s AND NOT (mask LENGTH('a))) OR ucast v"

text \<open>
  Modelled from the spec: the macro \<open>GD\<close>, through which a handler writes the 64-bit
  result into the destination slot of \<open>Node\<close>. The handlers use it as an unsigned 64-bit
  lvalue: they assign to it, shift it in place (\<open>GD >>= 32\<close> in \<open>UMulH\<close>), and \<open>Ashr\<close>
  casts its \<open>int32_t\<close> result to \<open>uint32_t\<close> before the assignment. The value assigned is
  first converted to \<open>uint64_t\<close> by the C++ integral conversion, which the handlers
  below write out: \<open>ucast\<close> from an unsigned type, \<open>scast\<close> from a signed one.
\<close>

definition GD_set :: "ssadata \<Rightarrow> u32 \<Rightarrow> u64 \<Rightarrow> ssadata" where
  "GD_set D Node v = D(Node := store_low v (D Node))"

definition GD_get :: "ssadata \<Rightarrow> u32 \<Rightarrow> u64" where
  "GD_get D Node = ucast (D Node)"

text \<open>
  Modelled from the spec: the macro \<open>DO_OP(size, type, func)\<close>, one \<open>case\<close> of the size
  switch that reads both operands as \<open>type\<close>, applies \<open>func\<close> and stores the result as
  \<open>type\<close> into the destination slot.
\<close>

definition DO_OP :: "('a::len word \<Rightarrow> 'a word \<Rightarrow> 'a word) \<Rightarrow> ssadata \<Rightarrow> u32 \<Rightarrow> u32 \<Rightarrow> u32 \<Rightarrow> ssadata" where
  "DO_OP func D Src1 Src2 Node = D(Node := store_low (func (GetSrc D Src1) (GetSrc D Src2)) (D Node))"

text \<open>
  Modelled from the spec: \<open>memcpy(GDP, &Tmp, n)\<close>, which copies the low \<open>n\<close> bytes of a
  128-bit temporary into the destination slot.
\<close>

definition GDP_memcpy :: "ssadata \<Rightarrow> u32 \<Rightarrow> u128 \<Rightarrow> nat \<Rightarrow> ssadata" where
  "GDP_memcpy D Node v n = D(Node := (D Node AND NOT (mask (8 * n))) OR (v AND mask (8 * n)))"

text \<open>
  The shared prefix of every operation record: the operation size in bytes, the element
  size and the operand node ids (a fixed array, read at constant indices).
\<close>

record IROp_Header =
  Size :: u8
  ElementSize :: u8
  Args :: "nat \<Rightarrow> u32"

text \<open>The 64-bit value a handler leaves in the destination slot, when it returns.\<close>

definition written :: "fault + ssadata \<Rightarrow> u32 \<Rightarrow> u64 option" where
  "written r Node = (case r of Inl e \<Rightarrow> None | Inr D \<Rightarrow> Some (GD_get D Node))"

section \<open>Arithmetic handlers\<close>

text \<open>
  C++ leaves two things the handlers do undefined, and the model fixes them as the
  two's-complement hosts of the interpreter do. Signed arithmetic that overflows (the
  negation of \<open>INT32_MIN\<close>) wraps at the width of its type. A shift whose count
  reaches the width of the shifted type occurs twice: in \<open>1ULL << Op->Width\<close> at width
  64, whose value the handlers replace, and in \<open>Ror\<close> at a rotate amount of 0. Shifts
  are \<open>push_bit\<close> and \<open>drop_bit\<close>, which lose the bits shifted out; that \<open>Ror\<close> writes
  the same value when the count is instead reduced modulo the width is lemma
  \<open>rotate_bits_count_masked\<close>.
\<close>

definition Op_Add :: "IROp_Header \<Rightarrow> ssadata \<Rightarrow> u32 \<Rightarrow> fault + ssadata" where
  "Op_Add IROp D Node =
    (let OpSize = Size IROp;
         Src1 = Args IROp 0;
         Src2 = Args IROp 1
     in if OpSize = 4 then Inr (DO_OP (\<lambda>a b :: u32. a + b) D Src1 Src2 Node)
        else if OpSize = 8 then Inr (DO_OP (\<lambda>a b :: u64. a + b) D Src1 Src2 Node)
        else Inl UnknownSize)"

definition Op_Sub :: "IROp_Header \<Rightarrow> ssadata \<Rightarrow> u32 \<Rightarrow> fault + ssadata" where
  "Op_Sub IROp D Node =
    (let OpSize = Size IROp;
         Src1 = Args IROp 0;
         Src2 = Args IROp 1
     in if OpSize = 4 then Inr (DO_OP (\<lambda>a b :: u32. a - b) D Src1 Src2 Node)
        else if OpSize = 8 then Inr (DO_OP (\<lambda>a b :: u64. a - b) D Src1 Src2 Node)
        else Inl UnknownSize)"

text \<open>
  \<open>Neg\<close>: the operand is read as 64 bits. At size 4 it is cast to \<open>int32_t\<close> and negated
  in that type, and the \<open>int32_t\<close> result is assigned to the 64-bit \<open>GD\<close>: the conversion
  of a signed value to \<open>uint64_t\<close> is \<open>scast\<close>.
\<close>

definition Op_Neg :: "IROp_Header \<Rightarrow> ssadata \<Rightarrow> u32 \<Rightarrow> fault + ssadata" where
  "Op_Neg IROp D Node =
    (let OpSize = Size IROp;
         Src = (GetSrc D (Args IROp 0) :: u64)
     in if OpSize = 4 then Inr (GD_set D Node (scast (- (ucast Src :: u32))))
        else if OpSize = 8 then Inr (GD_set D Node (- Src))
        else Inl UnknownSize)"

section \<open>Multiplication\<close>

text \<open>
  \<open>UMulH\<close>: both operands are read as \<open>uint64_t\<close>. At size 4 the 64-bit product of the two
  64-bit reads is stored and shifted in place; at sizes 8 and 16 the product is taken in
  \<open>__uint128_t\<close> and its high half stored.
\<close>

definition Op_UMulH :: "IROp_Header \<Rightarrow> ssadata \<Rightarrow> u32 \<Rightarrow> fault + ssadata" where
  "Op_UMulH IROp D Node =
    (let OpSize = Size IROp;
         Src1 = (GetSrc D (Args IROp 0) :: u64);
         Src2 = (GetSrc D (Args IROp 1) :: u64)
     in if OpSize = 4 then
          (let D1 = GD_set D Node (Src1 * Src2)
           in Inr (GD_set D1 Node (drop_bit 32 (GD_get D1 Node))))
        else if OpSize = 8 then
          (let Tmp = (ucast Src1 :: u128) * (ucast Src2 :: u128)
           in Inr (GD_set D Node (ucast (drop_bit 64 Tmp))))
        else if OpSize = 16 then
          (let Tmp = (ucast Src1 :: u128) * (ucast Src2 :: u128)
           in Inr (GD_set D Node (ucast (drop_bit 64 Tmp))))
        else Inl UnknownSize)"

text \<open>
  \<open>UMul\<close>: at size 4 both operands are cast to \<open>uint32_t\<close> and multiplied in that type;
  at size 8 in \<open>uint64_t\<close>; at size 16 the 128-bit product is copied to the slot.
\<close>

definition Op_UMul :: "IROp_Header \<Rightarrow> ssadata \<Rightarrow> u32 \<Rightarrow> fault + ssadata" where
  "Op_UMul IROp D Node =
    (let OpSize = Size IROp;
         Src1 = (GetSrc D (Args IROp 0) :: u64);
         Src2 = (GetSrc D (Args IROp 1) :: u64)
     in if OpSize = 4 then
          Inr (GD_set D Node (ucast ((ucast Src1 :: u32) * (ucast Src2 :: u32))))
        else if OpSize = 8 then
          Inr (GD_set D Node (Src1 * Src2))
        else if OpSize = 16 then
          (let Tmp = (ucast Src1 :: u128) * (ucast Src2 :: u128)
           in Inr (GDP_memcpy D Node Tmp 16))
        else Inl UnknownSize)"

section \<open>Rotate, long divide, bitwise handlers\<close>

text \<open>
  The lambda \<open>Ror\<close> of the handler, generic in the type of \<open>In\<close>:
  \<open>sizeof(In) * 8\<close> is the width of that type.
\<close>

definition Ror :: "'a::len word \<Rightarrow> 'a word \<Rightarrow> 'a word" where
  "Ror In R =
    (let RotateMask = (of_nat (LENGTH('a) - 1) :: 'a word);
         R' = R AND RotateMask
     in drop_bit (unat R') In OR push_bit (LENGTH('a) - unat R') In)"

definition Op_Ror :: "IROp_Header \<Rightarrow> ssadata \<Rightarrow> u32 \<Rightarrow> fault + ssadata" where
  "Op_Ror IROp D Node =
    (let OpSize = Size IROp;
         Src1 = (GetSrc D (Args IROp 0) :: u64);
         Src2 = (GetSrc D (Args IROp 1) :: u64)
     in if OpSize = 4 then
          Inr (GD_set D Node (ucast (Ror (ucast Src1 :: u32) (ucast Src2 :: u32))))
        else if OpSize = 8 then
          Inr (GD_set D Node (Ror Src1 Src2))
        else Inl UnknownSize)"

text \<open>
  \<open>LUDiv\<close>: the three operands are read at the operation size, the dividend is built
  and divided at twice that size. The C++ does not test the divisor.
\<close>

definition Op_LUDiv :: "IROp_Header \<Rightarrow> ssadata \<Rightarrow> u32 \<Rightarrow> fault + ssadata" where
  "Op_LUDiv IROp D Node =
    (let OpSize = Size IROp
     in if OpSize = 2 then
          (let SrcLow = (GetSrc D (Args IROp 0) :: u16);
               SrcHigh = (GetSrc D (Args IROp 1) :: u16);
               Divisor = (GetSrc D (Args IROp 2) :: u16);
               Source = (push_bit 16 (ucast SrcHigh :: u32)) OR ucast SrcLow
           in if Divisor = 0 then Inl DivideByZero
              else (let Res = Source div ucast Divisor
                    in Inr (GD_set D Node (ucast (ucast Res :: u16)))))
        else if OpSize = 4 then
          (let SrcLow = (GetSrc D (Args IROp 0) :: u32);
               SrcHigh = (GetSrc D (Args IROp 1) :: u32);
               Divisor = (GetSrc D (Args IROp 2) :: u32);
               Source = (push_bit 32 (ucast SrcHigh :: u64)) OR ucast SrcLow
           in if Divisor = 0 then Inl DivideByZero
              else (let Res = Source div ucast Divisor
                    in Inr (GD_set D Node (ucast (ucast Res :: u32)))))
        else if OpSize = 8 then
          (let SrcLow = (GetSrc D (Args IROp 0) :: u64);
               SrcHigh = (GetSrc D (Args IROp 1) :: u64);
               Divisor = (GetSrc D (Args IROp 2) :: u64);
               Source = (push_bit 64 (ucast SrcHigh :: u128)) OR ucast SrcLow
           in if Divisor = 0 then Inl DivideByZero
              else (let Res = Source div ucast Divisor
                    in Inr (GDP_memcpy D Node Res (unat OpSize))))
        else Inl UnknownSize)"

text \<open>
  \<open>Not\<close>: the mask is read from a table of nine entries at index \<open>OpSize\<close>; the C++ does
  not test the index.
\<close>

definition Not_mask :: "u64 list" where
  "Not_mask = [0, 0xFF, 0xFFFF, 0, 0xFFFFFFFF, 0, 0, 0, 0xFFFFFFFFFFFFFFFF]"

definition Op_Not :: "IROp_Header \<Rightarrow> ssadata \<Rightarrow> u32 \<Rightarrow> fault + ssadata" where
  "Op_Not IROp D Node =
    (let OpSize = Size IROp;
         Src = (GetSrc D (Args IROp 0) :: u64)
     in if unat OpSize < length Not_mask then
          (let Mask = Not_mask ! unat OpSize
           in Inr (GD_set D Node ((NOT Src) AND Mask)))
        else Inl OutOfBounds)"

text \<open>\<open>std::popcount\<close>: the number of bits set in its argument.\<close>

definition popcount :: "'a::len word \<Rightarrow> nat" where
  "popcount w = length (filter (bit w) [0..<LENGTH('a)])"

definition Op_Popcount :: "IROp_Header \<Rightarrow> ssadata \<Rightarrow> u32 \<Rightarrow> fault + ssadata" where
  "Op_Popcount IROp D Node =
    (let Src = (GetSrc D (Args IROp 0) :: u64)
     in Inr (GD_set D Node (of_nat (popcount Src))))"

section \<open>Bit-field handlers\<close>

text \<open>
  \<open>Bfi\<close> and \<open>Bfe\<close> read the field from their own operation records
  (\<open>IROp_Bfi\<close>, \<open>IROp_Bfe\<close>, declared outside the sources): \<open>Width\<close> and \<open>lsb\<close>, two bytes,
  are parameters here. \<open>1ULL << Op->Width\<close> is evaluated before \<open>Width = 64\<close> is tested
  and its value replaced.
\<close>

definition Op_Bfi :: "IROp_Header \<Rightarrow> u8 \<Rightarrow> u8 \<Rightarrow> ssadata \<Rightarrow> u32 \<Rightarrow> fault + ssadata" where
  "Op_Bfi IROp Width lsb D Node =
    (let SourceMask0 = (push_bit (unat Width) 1 :: u64) - 1;
         SourceMask = (if Width = 64 then NOT 0 else SourceMask0);
         DestMask = NOT (push_bit (unat lsb) SourceMask);
         Src1 = (GetSrc D (Args IROp 0) :: u64);
         Src2 = (GetSrc D (Args IROp 1) :: u64);
         Res = (Src1 AND DestMask) OR push_bit (unat lsb) (Src2 AND SourceMask)
     in Inr (GD_set D Node Res))"

definition Op_Bfe :: "IROp_Header \<Rightarrow> u8 \<Rightarrow> u8 \<Rightarrow> ssadata \<Rightarrow> u32 \<Rightarrow> fault + ssadata" where
  "Op_Bfe IROp Width lsb D Node =
    (let OpSize = Size IROp
     in if \<not> OpSize \<le> 8 then Inl AssertFailed
        else
          (let SourceMask0 = (push_bit (unat Width) 1 :: u64) - 1;
               SourceMask1 = (if Width = 64 then NOT 0 else SourceMask0);
               SourceMask = push_bit (unat lsb) SourceMask1;
               Src = (GetSrc D (Args IROp 0) :: u64)
           in Inr (GD_set D Node (drop_bit (unat lsb) (Src AND SourceMask)))))"

section \<open>Floating-point compare\<close>

text \<open>
  A \<open>float\<close> or \<open>double\<close> operand is the IEEE 754 value of the bits in the slot. With the
  sign bit removed, the bit patterns of the finite values and of infinity are ordered as
  their magnitudes are, and every pattern above that of infinity is a NaN. \<open><\<close> and \<open>==\<close>
  on two operands are false when one is a NaN, and compare the signed magnitudes
  otherwise (the two zeros are equal).
\<close>

definition fp_magnitude :: "'a::len word \<Rightarrow> 'a word" where
  "fp_magnitude x = take_bit (LENGTH('a) - 1) x"

definition fp_key :: "'a::len word \<Rightarrow> int" where
  "fp_key x = (if bit x (LENGTH('a) - 1) then - uint (fp_magnitude x) else uint (fp_magnitude x))"

definition isnan_float :: "u32 \<Rightarrow> bool" where
  "isnan_float x \<longleftrightarrow> 0x7F800000 < fp_magnitude x"

definition isnan_double :: "u64 \<Rightarrow> bool" where
  "isnan_double x \<longleftrightarrow> 0x7FF0000000000000 < fp_magnitude x"

definition less_float :: "u32 \<Rightarrow> u32 \<Rightarrow> bool" where
  "less_float a b \<longleftrightarrow> \<not> isnan_float a \<and> \<not> isnan_float b \<and> fp_key a < fp_key b"

definition eq_float :: "u32 \<Rightarrow> u32 \<Rightarrow> bool" where
  "eq_float a b \<longleftrightarrow> \<not> isnan_float a \<and> \<not> isnan_float b \<and> fp_key a = fp_key b"

definition less_double :: "u64 \<Rightarrow> u64 \<Rightarrow> bool" where
  "less_double a b \<longleftrightarrow> \<not> isnan_double a \<and> \<not> isnan_double b \<and> fp_key a < fp_key b"

definition eq_double :: "u64 \<Rightarrow> u64 \<Rightarrow> bool" where
  "eq_double a b \<longleftrightarrow> \<not> isnan_double a \<and> \<not> isnan_double b \<and> fp_key a = fp_key b"

text \<open>
  The enumeration \<open>IR::FCMP_FLAG_LT\<close>, \<open>IR::FCMP_FLAG_UNORDERED\<close>, \<open>IR::FCMP_FLAG_EQ\<close> is
  declared outside the sources: the three bit positions are parameters.
\<close>

record FCmpFlag =
  FCMP_FLAG_LT :: nat
  FCMP_FLAG_UNORDERED :: nat
  FCMP_FLAG_EQ :: nat

text \<open>
  The three tests of the handler, which the C++ writes once for \<open>float\<close> and once for
  \<open>double\<close>: \<open>Unordered\<close>, \<open>Src1 < Src2\<close> and \<open>Src1 == Src2\<close> are passed in.
\<close>

definition FCmp_flags :: "FCmpFlag \<Rightarrow> u32 \<Rightarrow> bool \<Rightarrow> bool \<Rightarrow> bool \<Rightarrow> u32" where
  "FCmp_flags F Flags Unordered lt eq =
    (let ResultFlags = 0;
         ResultFlags =
           (if Flags AND push_bit (FCMP_FLAG_LT F) 1 \<noteq> 0 \<and> (Unordered \<or> lt)
            then ResultFlags OR push_bit (FCMP_FLAG_LT F) 1 else ResultFlags);
         ResultFlags =
           (if Flags AND push_bit (FCMP_FLAG_UNORDERED F) 1 \<noteq> 0 \<and> Unordered
            then ResultFlags OR push_bit (FCMP_FLAG_UNORDERED F) 1 else ResultFlags);
         ResultFlags =
           (if Flags AND push_bit (FCMP_FLAG_EQ F) 1 \<noteq> 0 \<and> (Unordered \<or> eq)
            then ResultFlags OR push_bit (FCMP_FLAG_EQ F) 1 else ResultFlags)
     in ResultFlags)"

text \<open>
  \<open>FCmp\<close>: \<open>Op->ElementSize\<close> and \<open>Op->Flags\<close> are fields of the operation's own record,
  parameters here. Any element size other than 4 takes the \<open>double\<close> branch.
\<close>

definition Op_FCmp :: "FCmpFlag \<Rightarrow> IROp_Header \<Rightarrow> u8 \<Rightarrow> u32 \<Rightarrow> ssadata \<Rightarrow> u32 \<Rightarrow> fault + ssadata" where
  "Op_FCmp F IROp OpElementSize Flags D Node =
    (if OpElementSize = 4 then
       (let Src1 = (GetSrc D (Args IROp 0) :: u32);
            Src2 = (GetSrc D (Args IROp 1) :: u32);
            Unordered = (isnan_float Src1 \<or> isnan_float Src2)
        in Inr (GD_set D Node
             (ucast (FCmp_flags F Flags Unordered (less_float Src1 Src2) (eq_float Src1 Src2)))))
     else
       (let Src1 = (GetSrc D (Args IROp 0) :: u64);
            Src2 = (GetSrc D (Args IROp 1) :: u64);
            Unordered = (isnan_double Src1 \<or> isnan_double Src2)
        in Inr (GD_set D Node
             (ucast (FCmp_flags F Flags Unordered (less_double Src1 Src2) (eq_double Src1 Src2))))))"

section \<open>Concrete operations and buffers\<close>

text \<open>
  An operation header of a given size whose operand \<open>i\<close> is node \<open>i\<close>, and a buffer
  that holds three given slots at the nodes 0, 1 and 2 and zero elsewhere.
\<close>

definition example_Args :: "nat \<Rightarrow> u32" where
  "example_Args i = of_nat i"

definition example_Header :: "u8 \<Rightarrow> IROp_Header" where
  "example_Header s = \<lparr>Size = s, ElementSize = 0, Args = example_Args\<rparr>"

definition example_ssa :: "u128 \<Rightarrow> u128 \<Rightarrow> u128 \<Rightarrow> ssadata" where
  "example_ssa a b c = (\<lambda>n. if n = 0 then a else if n = 1 then b else if n = 2 then c else 0)"

definition example_FCmpFlag :: FCmpFlag where
  "example_FCmpFlag = \<lparr>FCMP_FLAG_LT = 1, FCMP_FLAG_UNORDERED = 2, FCMP_FLAG_EQ = 0\<rparr>"

section \<open>BucketList\<close>

text \<open>
  \<open>template<unsigned _Size, typename T = uint32_t> struct BucketList\<close> holds the array
  \<open>T Items[Size]\<close> and the owning pointer \<open>Next\<close> to the next bucket. A chain is modelled
  by the list of the \<open>Items\<close> arrays of its buckets, the head first: a pointer to a
  bucket is its index \<open>b\<close> in the list, \<open>Next\<close> of bucket \<open>b\<close> is bucket \<open>b + 1\<close>, and
  \<open>Next\<close> is null in the last one. The template parameter \<open>Size\<close>, at least 1, is the
  parameter \<open>S\<close>; every array has \<open>S\<close> slots, and \<open>T\<close> is \<open>uint32_t\<close>, the type of the
  values \<open>Append\<close> and \<open>Erase\<close> take. The model is the build without \<open>NDEBUG\<close>, in which
  unused slots are poisoned and \<open>LOGMAN_THROW_A\<close> is checked: a failed check, the null
  \<open>Next\<close> that \<open>Erase\<close> would dereference and an index before the array are faults. A
  bucket pointer past the chain or an index past the array, which the loops never form,
  is \<open>BadIndex\<close> as well.
\<close>

type_synonym bucket_chain = "u32 list list"

datatype bucket_fault = BadState | NotContained | NullNext | BadIndex

text \<open>
  \<open>Clear\<close>, which the constructor calls: slot 0 is set to 0, the other slots are poisoned
  (\<open>NDEBUG\<close> is not defined) and \<open>Next\<close> is reset.
\<close>

definition Clear_Items :: "nat \<Rightarrow> u32 list" where
  "Clear_Items S = 0 # replicate (S - 1) 0xDEADBEEF"

definition Clear :: "nat \<Rightarrow> bucket_chain \<Rightarrow> bucket_chain" where
  "Clear S c = [Clear_Items S]"

definition BucketList_new :: "nat \<Rightarrow> bucket_chain" where
  "BucketList_new S = [Clear_Items S]"

text \<open>\<open>Bucket->Items[i] = v\<close> through a pointer to bucket \<open>b\<close>.\<close>

definition set_item :: "bucket_chain \<Rightarrow> nat \<Rightarrow> nat \<Rightarrow> u32 \<Rightarrow> bucket_chain" where
  "set_item c b i v = c[b := (c ! b)[i := v]]"

text \<open>
  \<open>Iterate\<close>, with the enumerator collecting the items it is called on: the loop stops at
  the first item 0 and follows \<open>Next\<close> after the last slot of a bucket. \<open>LOGMAN_THROW_A\<close>
  fails when \<open>Next\<close> is null there.
\<close>

function Iterate_loop :: "nat \<Rightarrow> bucket_chain \<Rightarrow> nat \<Rightarrow> nat \<Rightarrow> bucket_fault + u32 list" where
  "Iterate_loop S c b i =
    (if b < length c \<and> i < S then
       (let Item = c ! b ! i
        in if Item = 0 then Inr []
           else
             (case (if Suc i = S then
                      (if Suc b < length c then Iterate_loop S c (Suc b) 0 else Inl BadState)
                    else Iterate_loop S c b (Suc i))
              of Inl e \<Rightarrow> Inl e | Inr xs \<Rightarrow> Inr (Item # xs)))
     else Inl BadIndex)"
  by pat_completeness auto
termination
  by (relation "measures [\<lambda>(S, c, b, i). length c - b, \<lambda>(S, c, b, i). S - i]") auto

definition Iterate :: "nat \<Rightarrow> bucket_chain \<Rightarrow> bucket_fault + u32 list" where
  "Iterate S c = Iterate_loop S c 0 0"

function Find_loop :: "nat \<Rightarrow> (u32 \<Rightarrow> bool) \<Rightarrow> bucket_chain \<Rightarrow> nat \<Rightarrow> nat \<Rightarrow> bucket_fault + bool" where
  "Find_loop S Enumerator c b i =
    (if b < length c \<and> i < S then
       (let Item = c ! b ! i
        in if Item = 0 then Inr False
           else if Enumerator Item then Inr True
           else if Suc i = S then
             (if Suc b < length c then Find_loop S Enumerator c (Suc b) 0 else Inl BadState)
           else Find_loop S Enumerator c b (Suc i))
     else Inl BadIndex)"
  by pat_completeness auto
termination
  by (relation "measures [\<lambda>(S, E, c, b, i). length c - b, \<lambda>(S, E, c, b, i). S - i]") auto

definition Find :: "nat \<Rightarrow> (u32 \<Rightarrow> bool) \<Rightarrow> bucket_chain \<Rightarrow> bucket_fault + bool" where
  "Find S Enumerator c = Find_loop S Enumerator c 0 0"

text \<open>
  \<open>Append\<close>: \<open>while (that->Next)\<close> walks to the last bucket; the \<open>for\<close> loop stores \<open>Val\<close> in
  the first slot that holds 0 and leaves \<open>i\<close> at that slot, or at \<open>Size\<close> when there is
  none; then either the next slot is set to 0 or a new bucket is linked.
\<close>

function Append_walk :: "bucket_chain \<Rightarrow> nat \<Rightarrow> nat" where
  "Append_walk c that = (if Suc that < length c then Append_walk c (Suc that) else that)"
  by pat_completeness auto
termination
  by (relation "measure (\<lambda>(c, that). length c - that)") auto

function Append_scan :: "nat \<Rightarrow> u32 list \<Rightarrow> nat \<Rightarrow> nat" where
  "Append_scan S Items i =
    (if i < S then (if Items ! i = 0 then i else Append_scan S Items (Suc i)) else i)"
  by pat_completeness auto
termination
  by (relation "measure (\<lambda>(S, Items, i). S - i)") auto

definition Append :: "nat \<Rightarrow> u32 \<Rightarrow> bucket_chain \<Rightarrow> bucket_chain" where
  "Append S Val c =
    (let that = Append_walk c 0;
         i = Append_scan S (c ! that) 0;
         c1 = (if i < S then set_item c that i Val else c)
     in if i < S - 1 then set_item c1 that (Suc i) 0
        else c1 @ [Clear_Items S])"

text \<open>
  \<open>Erase\<close>, first loop: the search for \<open>Val\<close>, which does not stop at an item 0;
  \<open>LOGMAN_THROW_A\<close> fails when the chain ends.
\<close>

function Erase_find :: "nat \<Rightarrow> u32 \<Rightarrow> bucket_chain \<Rightarrow> nat \<Rightarrow> nat \<Rightarrow> bucket_fault + nat \<times> nat" where
  "Erase_find S Val c that i =
    (if that < length c \<and> i < S then
       (if c ! that ! i = Val then Inr (that, i)
        else if Suc i = S then
          (if Suc that < length c then Erase_find S Val c (Suc that) 0 else Inl NotContained)
        else Erase_find S Val c that (Suc i))
     else Inl BadIndex)"
  by pat_completeness auto
termination
  by (relation "measures [\<lambda>(S, Val, c, b, i). length c - b, \<lambda>(S, Val, c, b, i). S - i]") auto

text \<open>
  \<open>Erase\<close>, second loop, from the slot found: at the first item 0 the item before it is
  moved to the slot found and replaced by 0; after the last slot of a bucket whose next
  bucket is empty, that bucket is released and the last item of this one is moved.
  \<open>that->Next->Items[0]\<close> is read without a test of \<open>Next\<close>, and \<open>Items[i-1]\<close> without a
  test of \<open>i\<close>.
\<close>

function Erase_move :: "nat \<Rightarrow> bucket_chain \<Rightarrow> nat \<Rightarrow> nat \<Rightarrow> nat \<Rightarrow> nat \<Rightarrow> bucket_fault + bucket_chain" where
  "Erase_move S c foundThat foundI that i =
    (if that < length c \<and> i < S then
       (if c ! that ! i = 0 then
          (if i = 0 then Inl BadIndex
           else
             (let c1 = set_item c foundThat foundI (c ! that ! (i - 1));
                  c2 = set_item c1 that (i - 1) 0
              in Inr c2))
        else if Suc i = S then
          (if Suc that < length c then
             (if c ! Suc that ! 0 = 0 then
                (let c0 = take (Suc that) c;
                     c1 = set_item c0 foundThat foundI (c0 ! that ! (S - 1));
                     c2 = set_item c1 that (S - 1) 0
                 in Inr c2)
              else Erase_move S c foundThat foundI (Suc that) 0)
           else Inl NullNext)
        else Erase_move S c foundThat foundI that (Suc i))
     else Inl BadIndex)"
  by pat_completeness auto
termination
  by (relation "measures [\<lambda>(S, c, fb, fi, b, i). length c - b, \<lambda>(S, c, fb, fi, b, i). S - i]") auto

definition Erase :: "nat \<Rightarrow> u32 \<Rightarrow> bucket_chain \<Rightarrow> bucket_fault + bucket_chain" where
  "Erase S Val c =
    (case Erase_find S Val c 0 0 of
       Inl e \<Rightarrow> Inl e
     | Inr (foundThat, foundI) \<Rightarrow> Erase_move S c foundThat foundI foundThat foundI)"

text \<open>
  A sequence of appends and erases, run on a chain; and the sequences the container is
  meant for: an id appended is not 0 and not stored, an id erased is stored.
\<close>

datatype bucket_op = DoAppend u32 | DoErase u32

fun run_ops :: "nat \<Rightarrow> bucket_op list \<Rightarrow> bucket_chain \<Rightarrow> bucket_fault + bucket_chain" where
  "run_ops S [] c = Inr c"
| "run_ops S (DoAppend v # ops) c = run_ops S ops (Append S v c)"
| "run_ops S (DoErase v # ops) c =
    (case Erase S v c of Inl e \<Rightarrow> Inl e | Inr c' \<Rightarrow> run_ops S ops c')"

fun valid_ops :: "u32 list \<Rightarrow> bucket_op list \<Rightarrow> bool" where
  "valid_ops xs [] = True"
| "valid_ops xs (DoAppend v # ops) = (v \<noteq> 0 \<and> v \<notin> set xs \<and> valid_ops (v # xs) ops)"
| "valid_ops xs (DoErase v # ops) = (v \<in> set xs \<and> valid_ops (removeAll v xs) ops)"

fun ids_after :: "u32 list \<Rightarrow> bucket_op list \<Rightarrow> u32 list" where
  "ids_after xs [] = xs"
| "ids_after xs (DoAppend v # ops) = ids_after (v # xs) ops"
| "ids_after xs (DoErase v # ops) = ids_after (removeAll v xs) ops"

text \<open>
  The state of a chain between two operations: every bucket has \<open>S\<close> slots, and the first
  item 0 of the chain lies in its last bucket.
\<close>

definition stored :: "bucket_chain \<Rightarrow> u32 list" where
  "stored c = takeWhile (\<lambda>x. x \<noteq> 0) (concat c)"

definition chain_ok :: "nat \<Rightarrow> bucket_chain \<Rightarrow> bool" where
  "chain_ok S c \<longleftrightarrow>
     1 \<le> S \<and> c \<noteq> [] \<and> list_all (\<lambda>bk. length bk = S) c
     \<and> (length c - 1) * S \<le> length (stored c) \<and> length (stored c) < length c * S"

text \<open>
  The loops are unfolded one step at a time in the proofs below.
\<close>

declare Iterate_loop.simps [simp del] Find_loop.simps [simp del] Append_walk.simps [simp del]
  Append_scan.simps [simp del] Erase_find.simps [simp del] Erase_move.simps [simp del]

text \<open>The scenario of five appends and one erase, with \<open>Size = 4\<close>.\<close>

definition example_ops :: "bucket_op list" where
  "example_ops = [DoAppend 1, DoAppend 2, DoAppend 3, DoAppend 4, DoAppend 5, DoErase 2]"

section \<open>Facts about the slot accessors\<close>

lemma ucast_store_low:
  "LENGTH('a::len) \<le> 128 \<Longrightarrow> (ucast (store_low (v :: 'a word) s) :: 'a word) = v"
  by (rule bit_word_eqI) (auto simp add: store_low_def bit_simps)

lemma store_low_store_low:
  "store_low (w :: 'a::len word) (store_low (v :: 'a word) s) = store_low w s"
  by (rule bit_word_eqI) (auto simp add: store_low_def bit_simps dest: bit_imp_le_length)

lemma GD_get_GD_set: "GD_get (GD_set D Node v) Node = v"
  by (simp add: GD_get_def GD_set_def ucast_store_low)

lemma written_GD_set: "written (Inr (GD_set D Node v)) Node = Some v"
  by (simp add: written_def GD_get_GD_set)

lemma GD_set_GD_set: "GD_set (GD_set D Node v) Node w = GD_set D Node w"
  by (rule ext) (simp add: GD_set_def store_low_store_low)

section \<open>UMulH at size 16\<close>

lemma ucast_GetSrc: "LENGTH('b::len) \<le> LENGTH('a::len) \<Longrightarrow> (ucast (GetSrc D n :: 'a word) :: 'b word) = GetSrc D n"
  by (rule bit_word_eqI) (auto simp add: GetSrc_def bit_simps)

lemma unat_ucast_up:
  "LENGTH('a::len) \<le> LENGTH('b::len) \<Longrightarrow> unat (ucast (w :: 'a word) :: 'b word) = unat w"
proof -
  assume le: "LENGTH('a) \<le> LENGTH('b)"
  have "unat w < 2 ^ LENGTH('a)" by (rule unsigned_less)
  also have "(2::nat) ^ LENGTH('a) \<le> 2 ^ LENGTH('b)" using le by simp
  finally show ?thesis by (simp add: unsigned_ucast_eq take_bit_nat_eq_self)
qed

lemma unat_high_product:
  fixes a b :: u64
  shows "unat (ucast (drop_bit 64 ((ucast a :: u128) * ucast b)) :: u64) = (unat a * unat b) div 2 ^ 64"
proof -
  have la: "unat a < 2 ^ 64" and lb: "unat b < 2 ^ 64"
    using unsigned_less [of a, where 'a = nat] unsigned_less [of b, where 'a = nat] by simp_all
  have "unat a * unat b < 2 ^ 64 * 2 ^ 64"
    using la lb by (intro mult_strict_mono) simp_all
  then have lt: "unat a * unat b < 2 ^ 128" by simp
  have p: "unat ((ucast a :: u128) * ucast b) = unat a * unat b"
    using lt by (simp add: unat_word_ariths unat_ucast_up)
  have "unat (drop_bit 64 ((ucast a :: u128) * ucast b)) = drop_bit 64 (unat ((ucast a :: u128) * ucast b))"
    by (rule unat_drop_bit_eq)
  also have "\<dots> = drop_bit 64 (unat a * unat b)"
    by (simp only: p)
  also have "\<dots> = (unat a * unat b) div 2 ^ 64"
    by (rule drop_bit_eq_div)
  finally have d: "unat (drop_bit 64 ((ucast a :: u128) * ucast b)) = (unat a * unat b) div 2 ^ 64" .
  have "(unat a * unat b) div 2 ^ 64 < 2 ^ 64"
    using lt by (simp add: less_mult_imp_div_less)
  then show ?thesis
    by (simp add: unsigned_ucast_eq d take_bit_nat_eq_self)
qed

text \<open>
  Claim C1. For all operand slots, \<open>UMulH\<close> at size 16 leaves the buffer that \<open>UMulH\<close>
  at size 8 leaves: the high 64 bits of the 128-bit product of the low 64 bits of the two
  operand slots. With \<open>2^64\<close> in both 16-byte operand slots the product of the two
  128-bit values is \<open>2^128\<close>, whose high 128 bits are 1, and the handler writes 0.
\<close>

theorem UMulH_size16_as_size8:
  "Op_UMulH (IROp\<lparr>Size := 16\<rparr>) D Node = Op_UMulH (IROp\<lparr>Size := 8\<rparr>) D Node
   \<and> (\<exists>r. written (Op_UMulH (IROp\<lparr>Size := 16\<rparr>) D Node) Node = Some r
          \<and> unat r = (unat (GetSrc D (Args IROp 0) :: u64) * unat (GetSrc D (Args IROp 1) :: u64)) div 2 ^ 64)
   \<and> written (Op_UMulH (example_Header 16) (example_ssa (2 ^ 64) (2 ^ 64) 0) 3) 3 = Some 0"
  by (simp add: Op_UMulH_def written_GD_set unat_high_product example_Header_def example_Args_def
      example_ssa_def GetSrc_def)

section \<open>Neg at size 4\<close>

text \<open>
  Claim C2, as stated, at the operand 1: the claim has \<open>Neg\<close> at size 4 write
  \<open>0x00000000FFFFFFFF\<close>; the handler writes \<open>0xFFFFFFFFFFFFFFFF\<close>.
\<close>

theorem Neg_size4_counterexample:
  "written (Op_Neg (example_Header 4) (example_ssa 1 0 0) 3) 3 \<noteq> Some 0x00000000FFFFFFFF
   \<and> written (Op_Neg (example_Header 4) (example_ssa 1 0 0) 3) 3 = Some 0xFFFFFFFFFFFFFFFF"
  by (simp add: Op_Neg_def written_GD_set example_Header_def example_Args_def example_ssa_def GetSrc_def)

lemma mask_32_u64: "(0xFFFFFFFF :: u64) = mask 32"
  by (simp add: mask_eq_exp_minus_1)

lemma all_ones_u64: "(0xFFFFFFFFFFFFFFFF :: u64) = - 1"
  by simp

lemma drop_bit_32_scast:
  fixes x :: u32
  shows "drop_bit 32 (scast x :: u64) = (if bit x 31 then 0xFFFFFFFF else 0)"
  unfolding mask_32_u64
  by (rule bit_word_eqI) (auto simp add: bit_simps min_def dest: bit_imp_le_length)

lemma ucast_scast_u32:
  fixes x :: u32
  shows "(ucast (scast x :: u64) :: u32) = x"
proof (rule bit_word_eqI)
  fix n :: nat
  assume "n < LENGTH(32)"
  then have "n < 31 \<or> n = 31" by auto
  then show "bit (ucast (scast x :: u64) :: u32) n = bit x n"
    by (auto simp add: bit_simps min_def)
qed

text \<open>
  Claim C2, amended. For every operand slot, \<open>Neg\<close> at size 4 writes the sign extension
  to 64 bits of the 32-bit two's-complement negation of the low 32 bits of the operand:
  the low 32 bits of the written value are that negation, and the upper 32 bits are all
  equal to its bit 31.
\<close>

theorem Neg_size4_sign_extends:
  "\<exists>r. written (Op_Neg (IROp\<lparr>Size := 4\<rparr>) D Node) Node = Some r
       \<and> r = scast (- (GetSrc D (Args IROp 0) :: u32))
       \<and> (ucast r :: u32) = - GetSrc D (Args IROp 0)
       \<and> drop_bit 32 r = (if bit (- (GetSrc D (Args IROp 0) :: u32)) 31 then 0xFFFFFFFF else 0)"
  by (simp add: Op_Neg_def written_GD_set ucast_GetSrc drop_bit_32_scast ucast_scast_u32)

section \<open>Not\<close>

text \<open>
  Claim C8. For every operand slot, \<open>Not\<close> writes the complement of the 64-bit operand
  masked to \<open>0xFF\<close>, \<open>0xFFFF\<close>, \<open>0xFFFFFFFF\<close> or not at all at the sizes 1, 2, 4 and
  8, and writes 0 at the sizes 3, 5, 6 and 7.
\<close>

theorem Not_masked_by_size:
  "written (Op_Not (IROp\<lparr>Size := 1\<rparr>) D Node) Node = Some (NOT (GetSrc D (Args IROp 0)) AND 0xFF)
   \<and> written (Op_Not (IROp\<lparr>Size := 2\<rparr>) D Node) Node = Some (NOT (GetSrc D (Args IROp 0)) AND 0xFFFF)
   \<and> written (Op_Not (IROp\<lparr>Size := 4\<rparr>) D Node) Node = Some (NOT (GetSrc D (Args IROp 0)) AND 0xFFFFFFFF)
   \<and> written (Op_Not (IROp\<lparr>Size := 8\<rparr>) D Node) Node = Some (NOT (GetSrc D (Args IROp 0)))
   \<and> written (Op_Not (IROp\<lparr>Size := 3\<rparr>) D Node) Node = Some 0
   \<and> written (Op_Not (IROp\<lparr>Size := 5\<rparr>) D Node) Node = Some 0
   \<and> written (Op_Not (IROp\<lparr>Size := 6\<rparr>) D Node) Node = Some 0
   \<and> written (Op_Not (IROp\<lparr>Size := 7\<rparr>) D Node) Node = Some 0"
  by (simp add: Op_Not_def Not_mask_def written_GD_set all_ones_u64)

section \<open>Popcount\<close>

lemma popcount_card: "popcount (w :: 'a::len word) = card {i. i < LENGTH('a) \<and> bit w i}"
proof -
  have "{i. i < LENGTH('a) \<and> bit w i} = set (filter (bit w) [0..<LENGTH('a)])"
    by auto
  moreover have "distinct (filter (bit w) [0..<LENGTH('a)])" by simp
  ultimately show ?thesis
    by (simp only: popcount_def distinct_card)
qed

lemma popcount_examples: "popcount (1 :: u64) = 1" "popcount (0x100000001 :: u64) = 2"
  by (simp_all add: popcount_def upt_conv_Cons bit_numeral_simps)

text \<open>
  Claim C10. Whatever the size of the operation, \<open>Popcount\<close> writes the number of bits
  set among the 64 bits read from the operand slot. The slots \<open>1\<close> and \<open>0x100000001\<close>
  agree on their low 32 bits, so on the operand at the declared sizes 1, 2 and 4, and
  give the results 1 and 2.
\<close>

theorem Popcount_reads_64_bits:
  "(\<exists>r. written (Op_Popcount IROp D Node) Node = Some r
        \<and> unat r = card {i. i < 64 \<and> bit (GetSrc D (Args IROp 0) :: u64) i})
   \<and> (ucast (1 :: u64) :: u32) = ucast (0x100000001 :: u64)
   \<and> written (Op_Popcount (example_Header 1) (example_ssa 1 0 0) 3) 3 = Some 1
   \<and> written (Op_Popcount (example_Header 1) (example_ssa 0x100000001 0 0) 3) 3 = Some 2
   \<and> written (Op_Popcount (example_Header 2) (example_ssa 1 0 0) 3) 3 = Some 1
   \<and> written (Op_Popcount (example_Header 2) (example_ssa 0x100000001 0 0) 3) 3 = Some 2
   \<and> written (Op_Popcount (example_Header 4) (example_ssa 1 0 0) 3) 3 = Some 1
   \<and> written (Op_Popcount (example_Header 4) (example_ssa 0x100000001 0 0) 3) 3 = Some 2"
proof -
  have le: "popcount w \<le> 64" for w :: u64
    using length_filter_le [of "bit w" "[0..<64]"] by (simp add: popcount_def)
  have "unat (of_nat (popcount w) :: u64) = card {i. i < 64 \<and> bit w i}" for w :: u64
  proof -
    have "popcount w < 2 ^ 64" using le [of w] by simp
    then have "unat (of_nat (popcount w) :: u64) = popcount w"
      by (simp add: unat_of_nat take_bit_nat_eq_self)
    then show ?thesis by (simp add: popcount_card)
  qed
  then show ?thesis
    by (simp add: Op_Popcount_def written_GD_set popcount_examples example_Header_def
        example_Args_def example_ssa_def GetSrc_def)
qed

section \<open>Add, Sub and UMul\<close>

lemma GetSrc_DO_OP:
  "LENGTH('a::len) \<le> 128 \<Longrightarrow>
   (GetSrc (DO_OP func D Src1 Src2 Node) Node :: 'a word) = func (GetSrc D Src1) (GetSrc D Src2)"
  by (simp add: DO_OP_def GetSrc_def ucast_store_low)

text \<open>
  Claim C7. With the operands read at the width \<open>w\<close> of the operation (32 or 64 bits),
  the value \<open>Add\<close> and \<open>Sub\<close> store in the destination at that width, and the value
  \<open>UMul\<close> writes, is the sum, the difference or the product of the operands modulo
  \<open>2^w\<close>.
\<close>

theorem Add_Sub_UMul_modular:
  "(\<exists>D'. Op_Add (IROp\<lparr>Size := 4\<rparr>) D Node = Inr D'
        \<and> unat (GetSrc D' Node :: u32)
            = (unat (GetSrc D (Args IROp 0) :: u32) + unat (GetSrc D (Args IROp 1) :: u32)) mod 2 ^ 32)
   \<and> (\<exists>D'. Op_Add (IROp\<lparr>Size := 8\<rparr>) D Node = Inr D'
        \<and> unat (GetSrc D' Node :: u64)
            = (unat (GetSrc D (Args IROp 0) :: u64) + unat (GetSrc D (Args IROp 1) :: u64)) mod 2 ^ 64)
   \<and> (\<exists>D'. Op_Sub (IROp\<lparr>Size := 4\<rparr>) D Node = Inr D'
        \<and> uint (GetSrc D' Node :: u32)
            = (uint (GetSrc D (Args IROp 0) :: u32) - uint (GetSrc D (Args IROp 1) :: u32)) mod 2 ^ 32)
   \<and> (\<exists>D'. Op_Sub (IROp\<lparr>Size := 8\<rparr>) D Node = Inr D'
        \<and> uint (GetSrc D' Node :: u64)
            = (uint (GetSrc D (Args IROp 0) :: u64) - uint (GetSrc D (Args IROp 1) :: u64)) mod 2 ^ 64)
   \<and> (\<exists>r. written (Op_UMul (IROp\<lparr>Size := 4\<rparr>) D Node) Node = Some r
        \<and> unat r
            = (unat (GetSrc D (Args IROp 0) :: u32) * unat (GetSrc D (Args IROp 1) :: u32)) mod 2 ^ 32)
   \<and> (\<exists>r. written (Op_UMul (IROp\<lparr>Size := 8\<rparr>) D Node) Node = Some r
        \<and> unat r
            = (unat (GetSrc D (Args IROp 0) :: u64) * unat (GetSrc D (Args IROp 1) :: u64)) mod 2 ^ 64)"
  by (simp add: Op_Add_def Op_Sub_def Op_UMul_def GetSrc_DO_OP written_GD_set ucast_GetSrc
      unat_word_ariths uint_word_ariths unat_ucast_up)

section \<open>LUDiv at size 4\<close>

lemma unat_long_dividend:
  fixes hi lo :: u32
  shows "unat (push_bit 32 (ucast hi :: u64) OR ucast lo) = unat hi * 2 ^ 32 + unat lo"
proof -
  have disj: "push_bit 32 (ucast hi :: u64) AND ucast lo = 0"
    by (rule bit_word_eqI) (auto simp add: bit_simps dest: bit_imp_le_length)
  have hi: "unat hi < 2 ^ 32" and lo: "unat lo < 2 ^ 32"
    using unsigned_less [of hi, where 'a = nat] unsigned_less [of lo, where 'a = nat] by simp_all
  have "unat hi * 2 ^ 32 + unat lo < 2 ^ 64"
    using hi lo by simp
  moreover have "unat (push_bit 32 (ucast hi :: u64) + ucast lo) = (unat hi * 2 ^ 32 + unat lo) mod 2 ^ 64"
    by (simp add: unat_word_ariths unat_ucast_up push_bit_eq_mult mod_simps)
  ultimately show ?thesis
    by (simp add: disjunctive_add_eq_or [OF disj, symmetric])
qed

text \<open>
  Claim C5. At size 4 and for a divisor that is not zero, \<open>LUDiv\<close> writes the low 32
  bits, zero-extended, of the quotient of \<open>high * 2^32 + low\<close> (which is
  \<open>(high << 32) | low\<close>) by the divisor; with low 0, high 1 and divisor 2 it writes
  \<open>0x80000000\<close>.
\<close>

theorem LUDiv_size4:
  "((GetSrc D (Args IROp 2) :: u32) \<noteq> 0 \<longrightarrow>
      (\<exists>r. written (Op_LUDiv (IROp\<lparr>Size := 4\<rparr>) D Node) Node = Some r
         \<and> unat r = ((unat (GetSrc D (Args IROp 1) :: u32) * 2 ^ 32 + unat (GetSrc D (Args IROp 0) :: u32))
                       div unat (GetSrc D (Args IROp 2) :: u32)) mod 2 ^ 32))
   \<and> written (Op_LUDiv (example_Header 4) (example_ssa 0 1 2) 3) 3 = Some 0x80000000"
proof -
  have ex: "written (Op_LUDiv (example_Header 4) (example_ssa 0 1 2) 3) 3 = Some 0x80000000"
    by (simp add: Op_LUDiv_def written_GD_set example_Header_def example_Args_def
        example_ssa_def GetSrc_def)
  have "unat (ucast (ucast ((push_bit 32 (ucast hi :: u64) OR ucast lo) div ucast d) :: u32) :: u64)
        = ((unat hi * 2 ^ 32 + unat lo) div unat d) mod 2 ^ 32" for hi lo d :: u32
  proof -
    define Res where "Res = (push_bit 32 (ucast hi :: u64) OR ucast lo) div ucast d"
    have q: "unat Res = (unat hi * 2 ^ 32 + unat lo) div unat d"
      unfolding Res_def by (simp only: unat_div unat_long_dividend) (simp add: unat_ucast_up)
    have "unat (ucast (ucast Res :: u32) :: u64) = unat (ucast Res :: u32)"
      by (simp add: unat_ucast_up)
    also have "\<dots> = unat Res mod 2 ^ 32"
      by (simp add: unsigned_ucast_eq take_bit_eq_mod)
    finally have "unat (ucast (ucast Res :: u32) :: u64) = (unat hi * 2 ^ 32 + unat lo) div unat d mod 2 ^ 32"
      by (simp only: q)
    then show ?thesis
      unfolding Res_def .
  qed
  then show ?thesis
    using ex by (simp add: Op_LUDiv_def written_GD_set Let_def)
qed

theorem LUDiv_size4_witness:
  "(GetSrc (example_ssa 0 1 2) (Args (example_Header 4) 2) :: u32) \<noteq> 0
   \<and> (\<exists>r. written (Op_LUDiv ((example_Header 4)\<lparr>Size := 4\<rparr>) (example_ssa 0 1 2) 3) 3 = Some r
         \<and> unat r = ((unat (GetSrc (example_ssa 0 1 2) (Args (example_Header 4) 1) :: u32) * 2 ^ 32
                        + unat (GetSrc (example_ssa 0 1 2) (Args (example_Header 4) 0) :: u32))
                       div unat (GetSrc (example_ssa 0 1 2) (Args (example_Header 4) 2) :: u32)) mod 2 ^ 32)"
proof -
  have nz: "(GetSrc (example_ssa 0 1 2) (Args (example_Header 4) 2) :: u32) \<noteq> 0"
    by (simp add: example_Header_def example_Args_def example_ssa_def GetSrc_def)
  show ?thesis
    using nz LUDiv_size4 [of "example_ssa 0 1 2" "example_Header 4" 3] by blast
qed

section \<open>Ror\<close>

lemma unat_and_31: "unat (R AND 31 :: u32) = unat R mod 32"
proof -
  have m: "(31 :: u32) = mask 5" by (simp add: mask_eq_exp_minus_1)
  show ?thesis
    by (simp only: m take_bit_eq_mask [symmetric] unsigned_take_bit_eq) (simp add: take_bit_eq_mod)
qed

lemma unat_and_63: "unat (R AND 63 :: u64) = unat R mod 64"
proof -
  have m: "(63 :: u64) = mask 6" by (simp add: mask_eq_exp_minus_1)
  show ?thesis
    by (simp only: m take_bit_eq_mask [symmetric] unsigned_take_bit_eq) (simp add: take_bit_eq_mod)
qed

lemma rotate_bits:
  fixes In :: "'a::len word"
  assumes "s < LENGTH('a)"
  shows "drop_bit s In OR push_bit (LENGTH('a) - s) In = word_rotr s In"
proof (rule bit_word_eqI)
  fix n :: nat
  assume n: "n < LENGTH('a)"
  show "bit (drop_bit s In OR push_bit (LENGTH('a) - s) In) n = bit (word_rotr s In) n"
  proof (cases "n + s < LENGTH('a)")
    case True
    then have "(n + s) mod LENGTH('a) = n + s" by simp
    moreover have "\<not> (LENGTH('a) - s \<le> n \<and> bit In (n - (LENGTH('a) - s)))"
      using True assms n by (auto dest: bit_imp_le_length)
    ultimately show ?thesis
      using n by (auto simp add: bit_simps ac_simps)
  next
    case False
    then have "(n + s) mod LENGTH('a) = n - (LENGTH('a) - s)"
      using n assms by (simp add: mod_if)
    moreover have "\<not> bit In (s + n)"
      using False by (auto dest: bit_imp_le_length)
    moreover have "LENGTH('a) - s \<le> n" using False by simp
    ultimately show ?thesis
      using n by (simp add: bit_simps ac_simps)
  qed
qed

lemma word_rotr_0: "word_rotr 0 (w :: 'a::len word) = w"
  by (rule bit_word_eqI) (simp add: bit_simps)

lemma rotate_bits_count_masked:
  fixes In :: "'a::len word"
  assumes "s < LENGTH('a)"
  shows "drop_bit s In OR push_bit ((LENGTH('a) - s) mod LENGTH('a)) In = word_rotr s In"
proof (cases "s = 0")
  case True
  then show ?thesis by (simp add: word_rotr_0)
next
  case False
  then have "(LENGTH('a) - s) mod LENGTH('a) = LENGTH('a) - s"
    using assms by simp
  then show ?thesis
    using rotate_bits [OF assms] by simp
qed

lemma word_rotr_mod: "word_rotr (k mod LENGTH('a)) (w :: 'a::len word) = word_rotr k w"
  by (rule bit_word_eqI) (simp add: bit_simps mod_simps)

lemma Ror_u32: "Ror (In :: u32) R = word_rotr (unat R) In"
proof -
  have "Ror In R = word_rotr (unat R mod 32) In"
    using rotate_bits [of "unat R mod 32" In]
    by (simp add: Ror_def Let_def unat_and_31)
  then show ?thesis
    using word_rotr_mod [of "unat R" In] by simp
qed

lemma Ror_u64: "Ror (In :: u64) R = word_rotr (unat R) In"
proof -
  have "Ror In R = word_rotr (unat R mod 64) In"
    using rotate_bits [of "unat R mod 64" In]
    by (simp add: Ror_def Let_def unat_and_63)
  then show ?thesis
    using word_rotr_mod [of "unat R" In] by simp
qed

lemma unat_rotate_formula:
  fixes In :: "'a::len word"
  shows "unat (drop_bit s In OR push_bit t In)
         = ((unat In div 2 ^ s) OR (unat In * 2 ^ t)) mod 2 ^ LENGTH('a)"
proof -
  have "unat In div 2 ^ s < 2 ^ LENGTH('a)"
    by (rule le_less_trans [OF div_le_dividend unsigned_less])
  then have A: "take_bit LENGTH('a) (unat In div 2 ^ s) = unat In div 2 ^ s"
    by (simp add: take_bit_nat_eq_self)
  have d: "unat (drop_bit s In) = unat In div 2 ^ s"
    by (rule trans [OF unat_drop_bit_eq drop_bit_eq_div])
  have p: "unat (push_bit t In) = take_bit LENGTH('a) (unat In * 2 ^ t)"
    by (simp only: unsigned_push_bit_eq) (simp only: push_bit_eq_mult)
  have "unat (drop_bit s In OR push_bit t In) = unat (drop_bit s In) OR unat (push_bit t In)"
    by (rule unsigned_or_eq)
  also have "\<dots> = take_bit LENGTH('a) (unat In div 2 ^ s) OR take_bit LENGTH('a) (unat In * 2 ^ t)"
    by (simp only: d p A)
  also have "\<dots> = take_bit LENGTH('a) ((unat In div 2 ^ s) OR (unat In * 2 ^ t))"
    by (simp only: take_bit_or)
  also have "\<dots> = ((unat In div 2 ^ s) OR (unat In * 2 ^ t)) mod 2 ^ LENGTH('a)"
    by (rule take_bit_eq_mod)
  finally show ?thesis .
qed

lemma unat_Ror_u32:
  "unat (Ror (In :: u32) R) = ((unat In div 2 ^ (unat R mod 32)) OR (unat In * 2 ^ (32 - unat R mod 32))) mod 2 ^ 32"
  using unat_rotate_formula [of "unat R mod 32" In "32 - unat R mod 32"]
  by (simp add: Ror_def Let_def unat_and_31)

lemma unat_Ror_u64:
  "unat (Ror (In :: u64) R) = ((unat In div 2 ^ (unat R mod 64)) OR (unat In * 2 ^ (64 - unat R mod 64))) mod 2 ^ 64"
  using unat_rotate_formula [of "unat R mod 64" In "64 - unat R mod 64"]
  by (simp add: Ror_def Let_def unat_and_63)

lemma unat_ucast_mod_32: "unat (ucast (x :: u64) :: u32) mod 32 = unat x mod 32"
proof -
  have "unat (ucast x :: u32) = unat x mod 2 ^ 32"
    by (simp add: unsigned_ucast_eq take_bit_eq_mod)
  moreover have "(32::nat) dvd 2 ^ 32" by simp
  ultimately show ?thesis by (simp only: mod_mod_cancel)
qed

lemma word_rotr_multiple:
  assumes "k mod LENGTH('a) = 0"
  shows "word_rotr k (w :: 'a::len word) = w"
proof (rule bit_word_eqI)
  fix n :: nat
  assume n: "n < LENGTH('a)"
  have "(n + k) mod LENGTH('a) = (n + k mod LENGTH('a)) mod LENGTH('a)"
    by (simp add: mod_add_right_eq)
  then have "(n + k) mod LENGTH('a) = n"
    using assms n by simp
  then show "bit (word_rotr k w) n = bit w n"
    using n by (simp add: bit_simps)
qed

text \<open>
  Claim C6. At the sizes 4 and 8 (width \<open>w\<close> of 32 and 64 bits), with \<open>a\<close> the first
  operand at that width and \<open>r\<close> the 64-bit second operand, \<open>Ror\<close> writes
  \<open>((a >> (r mod w)) | (a << (w - r mod w))) mod 2^w\<close>, which is \<open>a\<close> rotated right by
  \<open>r\<close>; when \<open>r mod w = 0\<close> it writes \<open>a\<close>.
\<close>

theorem Ror_rotates_right:
  "(\<exists>r. written (Op_Ror (IROp\<lparr>Size := 4\<rparr>) D Node) Node = Some r
        \<and> unat r = ((unat (GetSrc D (Args IROp 0) :: u32) div 2 ^ (unat (GetSrc D (Args IROp 1) :: u64) mod 32))
                     OR (unat (GetSrc D (Args IROp 0) :: u32) * 2 ^ (32 - unat (GetSrc D (Args IROp 1) :: u64) mod 32)))
                    mod 2 ^ 32
        \<and> r = ucast (word_rotr (unat (GetSrc D (Args IROp 1) :: u64)) (GetSrc D (Args IROp 0) :: u32))
        \<and> (unat (GetSrc D (Args IROp 1) :: u64) mod 32 = 0 \<longrightarrow> r = ucast (GetSrc D (Args IROp 0) :: u32)))
   \<and> (\<exists>r. written (Op_Ror (IROp\<lparr>Size := 8\<rparr>) D Node) Node = Some r
        \<and> unat r = ((unat (GetSrc D (Args IROp 0) :: u64) div 2 ^ (unat (GetSrc D (Args IROp 1) :: u64) mod 64))
                     OR (unat (GetSrc D (Args IROp 0) :: u64) * 2 ^ (64 - unat (GetSrc D (Args IROp 1) :: u64) mod 64)))
                    mod 2 ^ 64
        \<and> r = word_rotr (unat (GetSrc D (Args IROp 1) :: u64)) (GetSrc D (Args IROp 0) :: u64)
        \<and> (unat (GetSrc D (Args IROp 1) :: u64) mod 64 = 0 \<longrightarrow> r = GetSrc D (Args IROp 0)))"
proof -
  define a32 :: u32 where "a32 = GetSrc D (Args IROp 0)"
  define a64 :: u64 where "a64 = GetSrc D (Args IROp 0)"
  define k :: u64 where "k = GetSrc D (Args IROp 1)"
  have c: "(ucast a64 :: u32) = a32"
    by (simp add: a32_def a64_def ucast_GetSrc)
  have r32: "Ror a32 (ucast k) = word_rotr (unat k) a32"
  proof -
    have "word_rotr (unat (ucast k :: u32)) a32 = word_rotr (unat (ucast k :: u32) mod 32) a32"
      using word_rotr_mod [of "unat (ucast k :: u32)" a32] by simp
    also have "\<dots> = word_rotr (unat k mod 32) a32"
      by (simp only: unat_ucast_mod_32)
    also have "\<dots> = word_rotr (unat k) a32"
      using word_rotr_mod [of "unat k" a32] by simp
    finally show ?thesis by (simp only: Ror_u32)
  qed
  have u32: "unat (ucast (Ror a32 (ucast k :: u32)) :: u64)
             = ((unat a32 div 2 ^ (unat k mod 32)) OR (unat a32 * 2 ^ (32 - unat k mod 32))) mod 2 ^ 32"
    by (simp only: unat_ucast_up [where 'a = 32 and 'b = 64, simplified] unat_Ror_u32 unat_ucast_mod_32)
  have u64: "unat (word_rotr (unat k) a64)
             = ((unat a64 div 2 ^ (unat k mod 64)) OR (unat a64 * 2 ^ (64 - unat k mod 64))) mod 2 ^ 64"
    using unat_Ror_u64 [of a64 k] by (simp only: Ror_u64)
  have z32: "unat k mod 32 = 0 \<Longrightarrow> word_rotr (unat k) a32 = a32"
    using word_rotr_multiple [of "unat k" a32] by simp
  have z64: "unat k mod 64 = 0 \<Longrightarrow> word_rotr (unat k) a64 = a64"
    using word_rotr_multiple [of "unat k" a64] by simp
  have "written (Op_Ror (IROp\<lparr>Size := 4\<rparr>) D Node) Node = Some (ucast (Ror a32 (ucast k :: u32)))"
    by (simp add: Op_Ror_def written_GD_set c a64_def [symmetric] k_def [symmetric] del: One_nat_def)
  moreover have "written (Op_Ror (IROp\<lparr>Size := 8\<rparr>) D Node) Node = Some (Ror a64 k)"
    by (simp add: Op_Ror_def written_GD_set a64_def [symmetric] k_def [symmetric] del: One_nat_def)
  ultimately show ?thesis
    unfolding a32_def [symmetric] a64_def [symmetric] k_def [symmetric]
    using u32 u64 r32 z32 z64 by (simp add: Ror_u64)
qed

theorem Ror_rotates_right_witness:
  "unat (GetSrc (example_ssa 0x12345678 64 0) (Args (example_Header 4) 1) :: u64) mod 32 = 0
   \<and> unat (GetSrc (example_ssa 0x12345678 64 0) (Args (example_Header 4) 1) :: u64) mod 64 = 0
   \<and> written (Op_Ror ((example_Header 4)\<lparr>Size := 4\<rparr>) (example_ssa 0x12345678 64 0) 3) 3 = Some 0x12345678
   \<and> written (Op_Ror ((example_Header 4)\<lparr>Size := 8\<rparr>) (example_ssa 0x12345678 64 0) 3) 3 = Some 0x12345678"
proof -
  have k: "unat (GetSrc (example_ssa 0x12345678 64 0) (Args (example_Header 4) 1) :: u64) = 64"
    by (simp add: example_Header_def example_Args_def example_ssa_def GetSrc_def)
  have a: "(GetSrc (example_ssa 0x12345678 64 0) (Args (example_Header 4) 0) :: u32) = 0x12345678"
    "(GetSrc (example_ssa 0x12345678 64 0) (Args (example_Header 4) 0) :: u64) = 0x12345678"
    by (simp_all add: example_Header_def example_Args_def example_ssa_def GetSrc_def)
  show ?thesis
    using Ror_rotates_right [of "example_Header 4" "example_ssa 0x12345678 64 0" 3]
    unfolding k a by auto
qed

section \<open>Bfi after Bfe\<close>

lemma GetSrc_GD_set_same: "(GetSrc (GD_set D Node v) Node :: u64) = v"
  by (simp add: GetSrc_def GD_set_def ucast_store_low)

lemma GetSrc_GD_set_other: "n \<noteq> Node \<Longrightarrow> GetSrc (GD_set D Node v) n = GetSrc D n"
  by (simp add: GetSrc_def GD_set_def)

lemma SourceMask_eq_mask:
  fixes Width :: u8
  assumes "unat Width \<le> 64"
  shows "(if Width = 64 then NOT 0 else push_bit (unat Width) 1 - 1) = (mask (unat Width) :: u64)"
proof (cases "Width = 64")
  case True
  then have "unat Width = 64" by simp
  then show ?thesis using True by (simp add: mask_eq_exp_minus_1)
next
  case False
  then show ?thesis by (simp add: mask_eq_exp_minus_1 push_bit_of_1)
qed

lemma field_roundtrip:
  fixes x :: u64
  assumes "l + w \<le> 64"
  shows "(x AND NOT (push_bit l (mask w))) OR push_bit l (drop_bit l (x AND push_bit l (mask w)) AND mask w) = x"
  by (rule bit_word_eqI) (use assms in \<open>auto simp add: bit_simps\<close>)

text \<open>
  Claim C3. Let \<open>lsb + width \<le> 64\<close>. \<open>Bfe\<close>, at an operation size of at most 8, extracts
  the field of the operand \<open>x\<close> into its own node; \<open>Bfi\<close> with \<open>x\<close> as first and that
  node as second operand, at the same \<open>lsb\<close> and \<open>width\<close>, then writes \<open>x\<close>. (The node
  of \<open>Bfe\<close> is not its own operand. A width of 0 is not excluded.)
\<close>

theorem Bfi_Bfe_roundtrip:
  assumes "unat lsb + unat Width \<le> 64" and "Size E \<le> 8"
    and "Args E 0 \<noteq> NodeE" and "Args I 0 = Args E 0" and "Args I 1 = NodeE"
  shows "\<exists>D1 D2. Op_Bfe E Width lsb D NodeE = Inr D1
           \<and> Op_Bfi I Width lsb D1 NodeI = Inr D2
           \<and> GD_get D2 NodeI = GetSrc D (Args E 0)"
proof -
  have w: "unat Width \<le> 64" using assms(1) by simp
  define x :: u64 where "x = GetSrc D (Args E 0)"
  define SM :: u64 where "SM = mask (unat Width)"
  define f :: u64 where "f = drop_bit (unat lsb) (x AND push_bit (unat lsb) SM)"
  define D1 where "D1 = GD_set D NodeE f"
  have "Op_Bfe E Width lsb D NodeE
        = Inr (GD_set D NodeE (drop_bit (unat lsb) (GetSrc D (Args E 0) AND
            push_bit (unat lsb) (if Width = 64 then NOT 0 else push_bit (unat Width) 1 - 1))))"
    using assms(2) by (simp add: Op_Bfe_def Let_def)
  then have e: "Op_Bfe E Width lsb D NodeE = Inr D1"
    by (simp only: SourceMask_eq_mask [OF w] D1_def f_def SM_def x_def)
  have s1: "(GetSrc D1 (Args I 0) :: u64) = x"
    using assms(3,4) by (simp add: D1_def GetSrc_GD_set_other x_def)
  have s2: "(GetSrc D1 (Args I 1) :: u64) = f"
    using assms(5) by (simp add: D1_def GetSrc_GD_set_same del: One_nat_def)
  have "Op_Bfi I Width lsb D1 NodeI
        = Inr (GD_set D1 NodeI
            ((GetSrc D1 (Args I 0) AND
               NOT (push_bit (unat lsb) (if Width = 64 then NOT 0 else push_bit (unat Width) 1 - 1)))
             OR push_bit (unat lsb) (GetSrc D1 (Args I 1) AND
                  (if Width = 64 then NOT 0 else push_bit (unat Width) 1 - 1))))"
    by (simp add: Op_Bfi_def Let_def)
  then have i: "Op_Bfi I Width lsb D1 NodeI
           = Inr (GD_set D1 NodeI ((x AND NOT (push_bit (unat lsb) SM)) OR push_bit (unat lsb) (f AND SM)))"
    by (simp only: SourceMask_eq_mask [OF w] s1 s2 SM_def)
  have "(x AND NOT (push_bit (unat lsb) SM)) OR push_bit (unat lsb) (f AND SM) = x"
    unfolding f_def SM_def using field_roundtrip [OF assms(1), of x] .
  then show ?thesis
    using e i by (simp add: GD_get_GD_set x_def)
qed

theorem Bfi_Bfe_roundtrip_witness:
  "unat (16 :: u8) + unat (8 :: u8) \<le> 64 \<and> Size (example_Header 8) \<le> 8
   \<and> Args (example_Header 8) 0 \<noteq> 1
   \<and> Args (example_Header 4) 0 = Args (example_Header 8) 0 \<and> Args (example_Header 4) 1 = 1
   \<and> (\<exists>D1 D2. Op_Bfe (example_Header 8) 8 16 (example_ssa 0xDEADBEEF 0 0) 1 = Inr D1
           \<and> Op_Bfi (example_Header 4) 8 16 D1 3 = Inr D2
           \<and> GD_get D2 3 = GetSrc (example_ssa 0xDEADBEEF 0 0) (Args (example_Header 8) 0))"
proof -
  have h: "unat (16 :: u8) + unat (8 :: u8) \<le> 64" "Size (example_Header 8) \<le> 8"
    "Args (example_Header 8) 0 \<noteq> 1"
    "Args (example_Header 4) 0 = Args (example_Header 8) 0" "Args (example_Header 4) 1 = 1"
    by (simp_all add: example_Header_def example_Args_def)
  show ?thesis
    using h Bfi_Bfe_roundtrip [OF h, of "example_ssa 0xDEADBEEF 0 0" 3] by blast
qed

section \<open>FCmp\<close>

lemma bit_flag: "bit (2 ^ f :: u32) n \<longleftrightarrow> n = f \<and> f < 32"
  by (auto simp add: bit_simps)

lemma flag_requested: "(Flags AND 2 ^ f \<noteq> 0) \<longleftrightarrow> bit (Flags :: u32) f"
proof
  assume "Flags AND 2 ^ f \<noteq> 0"
  then obtain n where "bit (Flags AND 2 ^ f) n"
    by (auto simp add: bit_eq_iff)
  then show "bit Flags f"
    by (auto simp add: bit_and_iff bit_flag)
next
  assume b: "bit Flags f"
  then have "f < 32" by (auto dest: bit_imp_le_length)
  with b have s: "bit (Flags AND 2 ^ f) f"
    by (simp add: bit_and_iff bit_flag)
  show "Flags AND 2 ^ f \<noteq> 0"
  proof
    assume "Flags AND 2 ^ f = 0"
    with s show False by simp
  qed
qed

lemma bit_FCmp_flags:
  "bit (FCmp_flags F Flags Unordered lt eq) n \<longleftrightarrow>
     (n = FCMP_FLAG_LT F \<and> bit Flags (FCMP_FLAG_LT F) \<and> (Unordered \<or> lt))
   \<or> (n = FCMP_FLAG_UNORDERED F \<and> bit Flags (FCMP_FLAG_UNORDERED F) \<and> Unordered)
   \<or> (n = FCMP_FLAG_EQ F \<and> bit Flags (FCMP_FLAG_EQ F) \<and> (Unordered \<or> eq))"
  by (auto simp add: FCmp_flags_def Let_def push_bit_of_1 flag_requested bit_or_iff bit_flag
      dest: bit_imp_le_length)

lemma bit_ucast_flags: "bit (ucast (x :: u32) :: u64) n \<longleftrightarrow> bit x n"
  by (auto simp add: bit_simps dest: bit_imp_le_length)

text \<open>
  Claim C4. At the element sizes 4 and 8: when an operand is a NaN, every bit among
  \<open>LT\<close>, \<open>EQ\<close> and \<open>UNORDERED\<close> that is set in the flags mask of the operation is set in the
  result; and for all operands, when \<open>UNORDERED\<close> is set in the mask (and is a bit of its
  own), it is set in the result exactly when an operand is a NaN.
\<close>

theorem FCmp_unordered_flags:
  "(\<exists>r. written (Op_FCmp F IROp 4 Flags D Node) Node = Some r
      \<and> (isnan_float (GetSrc D (Args IROp 0)) \<or> isnan_float (GetSrc D (Args IROp 1)) \<longrightarrow>
           (\<forall>f \<in> {FCMP_FLAG_LT F, FCMP_FLAG_EQ F, FCMP_FLAG_UNORDERED F}. bit Flags f \<longrightarrow> bit r f))
      \<and> (FCMP_FLAG_UNORDERED F \<noteq> FCMP_FLAG_LT F \<and> FCMP_FLAG_UNORDERED F \<noteq> FCMP_FLAG_EQ F
           \<and> bit Flags (FCMP_FLAG_UNORDERED F) \<longrightarrow>
           (bit r (FCMP_FLAG_UNORDERED F) \<longleftrightarrow>
              isnan_float (GetSrc D (Args IROp 0)) \<or> isnan_float (GetSrc D (Args IROp 1)))))
   \<and> (\<exists>r. written (Op_FCmp F IROp 8 Flags D Node) Node = Some r
      \<and> (isnan_double (GetSrc D (Args IROp 0)) \<or> isnan_double (GetSrc D (Args IROp 1)) \<longrightarrow>
           (\<forall>f \<in> {FCMP_FLAG_LT F, FCMP_FLAG_EQ F, FCMP_FLAG_UNORDERED F}. bit Flags f \<longrightarrow> bit r f))
      \<and> (FCMP_FLAG_UNORDERED F \<noteq> FCMP_FLAG_LT F \<and> FCMP_FLAG_UNORDERED F \<noteq> FCMP_FLAG_EQ F
           \<and> bit Flags (FCMP_FLAG_UNORDERED F) \<longrightarrow>
           (bit r (FCMP_FLAG_UNORDERED F) \<longleftrightarrow>
              isnan_double (GetSrc D (Args IROp 0)) \<or> isnan_double (GetSrc D (Args IROp 1)))))"
proof -
  have key: "(U \<longrightarrow> (\<forall>f \<in> {FCMP_FLAG_LT F, FCMP_FLAG_EQ F, FCMP_FLAG_UNORDERED F}.
                 bit Flags f \<longrightarrow> bit (ucast (FCmp_flags F Flags U lt eq) :: u64) f))
      \<and> (FCMP_FLAG_UNORDERED F \<noteq> FCMP_FLAG_LT F \<and> FCMP_FLAG_UNORDERED F \<noteq> FCMP_FLAG_EQ F
           \<and> bit Flags (FCMP_FLAG_UNORDERED F) \<longrightarrow>
           (bit (ucast (FCmp_flags F Flags U lt eq) :: u64) (FCMP_FLAG_UNORDERED F) \<longleftrightarrow> U))"
    for U lt eq
    by (auto simp add: bit_ucast_flags bit_FCmp_flags)
  have f4: "written (Op_FCmp F IROp 4 Flags D Node) Node
      = Some (ucast (FCmp_flags F Flags
          (isnan_float (GetSrc D (Args IROp 0)) \<or> isnan_float (GetSrc D (Args IROp 1)))
          (less_float (GetSrc D (Args IROp 0)) (GetSrc D (Args IROp 1)))
          (eq_float (GetSrc D (Args IROp 0)) (GetSrc D (Args IROp 1)))))"
    by (simp add: Op_FCmp_def Let_def written_GD_set del: One_nat_def)
  have f8: "written (Op_FCmp F IROp 8 Flags D Node) Node
      = Some (ucast (FCmp_flags F Flags
          (isnan_double (GetSrc D (Args IROp 0)) \<or> isnan_double (GetSrc D (Args IROp 1)))
          (less_double (GetSrc D (Args IROp 0)) (GetSrc D (Args IROp 1)))
          (eq_double (GetSrc D (Args IROp 0)) (GetSrc D (Args IROp 1)))))"
    by (simp add: Op_FCmp_def Let_def written_GD_set del: One_nat_def)
  show ?thesis
    unfolding f4 f8 using key by blast
qed

lemma ex_nan_float: "isnan_float (GetSrc (example_ssa 0x7FC00000 0x3F800000 0) (Args (example_Header 4) 0))"
  by (simp add: isnan_float_def fp_magnitude_def example_ssa_def example_Header_def example_Args_def GetSrc_def)
lemma ex_nan_double: "isnan_double (GetSrc (example_ssa 0x7FF8000000000000 0x3FF0000000000000 0) (Args (example_Header 8) 0))"
  by (simp add: isnan_double_def fp_magnitude_def example_ssa_def example_Header_def example_Args_def GetSrc_def)

theorem FCmp_unordered_flags_witness:
  "isnan_float (GetSrc (example_ssa 0x7FF800007FC00000 0x3F800000 0) (Args (example_Header 4) 0))
   \<and> isnan_double (GetSrc (example_ssa 0x7FF800007FC00000 0x3F800000 0) (Args (example_Header 4) 0))
   \<and> FCMP_FLAG_UNORDERED example_FCmpFlag \<noteq> FCMP_FLAG_LT example_FCmpFlag
   \<and> FCMP_FLAG_UNORDERED example_FCmpFlag \<noteq> FCMP_FLAG_EQ example_FCmpFlag
   \<and> bit (7 :: u32) (FCMP_FLAG_LT example_FCmpFlag)
   \<and> bit (7 :: u32) (FCMP_FLAG_EQ example_FCmpFlag)
   \<and> bit (7 :: u32) (FCMP_FLAG_UNORDERED example_FCmpFlag)
   \<and> (\<exists>r. written (Op_FCmp example_FCmpFlag (example_Header 4) 4 7
               (example_ssa 0x7FF800007FC00000 0x3F800000 0) 3) 3 = Some r
         \<and> bit r (FCMP_FLAG_LT example_FCmpFlag) \<and> bit r (FCMP_FLAG_EQ example_FCmpFlag)
         \<and> bit r (FCMP_FLAG_UNORDERED example_FCmpFlag))
   \<and> (\<exists>r. written (Op_FCmp example_FCmpFlag (example_Header 4) 8 7
               (example_ssa 0x7FF800007FC00000 0x3F800000 0) 3) 3 = Some r
         \<and> bit r (FCMP_FLAG_LT example_FCmpFlag) \<and> bit r (FCMP_FLAG_EQ example_FCmpFlag)
         \<and> bit r (FCMP_FLAG_UNORDERED example_FCmpFlag))"
proof -
  have n: "isnan_float (GetSrc (example_ssa 0x7FF800007FC00000 0x3F800000 0) (Args (example_Header 4) 0))"
    "isnan_double (GetSrc (example_ssa 0x7FF800007FC00000 0x3F800000 0) (Args (example_Header 4) 0))"
    by (simp_all add: isnan_float_def isnan_double_def fp_magnitude_def example_ssa_def
        example_Header_def example_Args_def GetSrc_def)
  have d: "FCMP_FLAG_UNORDERED example_FCmpFlag \<noteq> FCMP_FLAG_LT example_FCmpFlag"
    "FCMP_FLAG_UNORDERED example_FCmpFlag \<noteq> FCMP_FLAG_EQ example_FCmpFlag"
    by (simp_all add: example_FCmpFlag_def)
  have b: "bit (7 :: u32) (FCMP_FLAG_LT example_FCmpFlag)"
    "bit (7 :: u32) (FCMP_FLAG_EQ example_FCmpFlag)"
    "bit (7 :: u32) (FCMP_FLAG_UNORDERED example_FCmpFlag)"
    by (simp_all add: example_FCmpFlag_def bit_numeral_simps)
  show ?thesis
    using n d b
      FCmp_unordered_flags [of example_FCmpFlag "example_Header 4" 7
        "example_ssa 0x7FF800007FC00000 0x3F800000 0" 3]
    by blast
qed

section \<open>BucketList: append, erase and find\<close>

lemma length_concat_uniform:
  "\<forall>bk \<in> set c. length bk = S \<Longrightarrow> length (concat c) = length c * S"
  by (induction c) simp_all

lemma nth_concat_uniform:
  "\<forall>bk \<in> set c. length bk = S \<Longrightarrow> b < length c \<Longrightarrow> i < S \<Longrightarrow> concat c ! (b * S + i) = c ! b ! i"
proof (induction c arbitrary: b)
  case Nil
  then show ?case by simp
next
  case (Cons x xs)
  show ?case
  proof (cases b)
    case 0
    then show ?thesis using Cons.prems by (simp add: nth_append)
  next
    case (Suc b')
    have "Suc b' * S + i = length x + (b' * S + i)" using Cons.prems by simp
    then have "concat (x # xs) ! (b * S + i) = concat xs ! (b' * S + i)"
      unfolding Suc by (simp only: concat.simps nth_append_length_plus)
    then show ?thesis using Cons Suc by simp
  qed
qed

lemma concat_set_item:
  "\<forall>bk \<in> set c. length bk = S \<Longrightarrow> b < length c \<Longrightarrow> i < S \<Longrightarrow>
   concat (set_item c b i v) = (concat c)[b * S + i := v]"
proof (induction c arbitrary: b)
  case Nil
  then show ?case by simp
next
  case (Cons x xs)
  show ?case
  proof (cases b)
    case 0
    then show ?thesis using Cons.prems by (simp add: set_item_def list_update_append)
  next
    case (Suc b')
    have "concat (set_item xs b' i v) = (concat xs)[b' * S + i := v]"
      using Cons Suc by simp
    then show ?thesis
      using Cons.prems Suc by (simp add: set_item_def list_update_append)
  qed
qed

lemma length_set_item [simp]: "length (set_item c b i v) = length c"
  by (simp add: set_item_def)

lemma uniform_set_item:
  assumes "\<forall>bk \<in> set c. length bk = S" and "b < length c"
  shows "\<forall>bk \<in> set (set_item c b i v). length bk = S"
proof
  fix bk assume "bk \<in> set (set_item c b i v)"
  then have "bk \<in> insert ((c ! b)[i := v]) (set c)"
    using set_update_subset_insert [of c b "(c ! b)[i := v]"] by (auto simp add: set_item_def)
  then show "length bk = S" using assms by auto
qed

lemma concat_take_uniform:
  "\<forall>bk \<in> set c. length bk = S \<Longrightarrow> concat (take k c) = take (k * S) (concat c)"
proof (induction c arbitrary: k)
  case Nil
  then show ?case by simp
next
  case (Cons x xs)
  then show ?case by (cases k) simp_all
qed

lemma stored_nth: "j < length (stored c) \<Longrightarrow> stored c ! j = concat c ! j \<and> concat c ! j \<noteq> 0"
  using nth_mem [of j "stored c"] set_takeWhileD [of "stored c ! j" "\<lambda>x. x \<noteq> 0" "concat c"]
  by (simp add: stored_def takeWhile_nth)

lemma stored_end: "length (stored c) < length (concat c) \<Longrightarrow> concat c ! length (stored c) = 0"
  using nth_length_takeWhile [of "\<lambda>x. x \<noteq> 0" "concat c"] by (simp add: stored_def)

lemma stored_eq_take: "stored c = take (length (stored c)) (concat c)"
  unfolding stored_def by (rule takeWhile_eq_take)

lemma stored_is_take:
  assumes "\<And>j. j < k \<Longrightarrow> concat c ! j \<noteq> 0" and "k < length (concat c)" and "concat c ! k = 0"
  shows "stored c = take k (concat c)"
  unfolding stored_def
  by (rule takeWhile_eq_take_P_nth) (use assms in auto)

lemma next_bucket_exists:
  assumes "b * S + i < z" and "z < n * S" and "Suc i = S"
  shows "Suc b < n"
proof (rule ccontr)
  assume "\<not> Suc b < n"
  then have "n \<le> Suc b" by simp
  then have "n * S \<le> Suc b * S" by (rule mult_le_mono1)
  then show False using assms by simp
qed

lemma Iterate_loop_stored:
  assumes u: "\<forall>bk \<in> set c. length bk = S" and z: "length (stored c) < length c * S"
  shows "b < length c \<Longrightarrow> i < S \<Longrightarrow> b * S + i \<le> length (stored c) \<Longrightarrow>
         Iterate_loop S c b i = Inr (drop (b * S + i) (stored c))"
proof (induction k \<equiv> "length (stored c) - (b * S + i)" arbitrary: b i)
  case 0
  then have q: "b * S + i = length (stored c)" by simp
  have "concat c ! (b * S + i) = 0"
    unfolding q using z by (intro stored_end) (simp add: length_concat_uniform [OF u])
  then have "c ! b ! i = 0"
    using nth_concat_uniform [OF u "0.prems"(1,2)] by simp
  then show ?case
    using "0.prems" q by (subst Iterate_loop.simps) simp
next
  case (Suc k)
  then have q: "b * S + i < length (stored c)" by simp
  have item: "c ! b ! i = stored c ! (b * S + i)" "c ! b ! i \<noteq> 0"
    using stored_nth [OF q] nth_concat_uniform [OF u Suc.prems(1,2)] by simp_all
  have d: "drop (b * S + i) (stored c) = c ! b ! i # drop (Suc (b * S + i)) (stored c)"
    using q item(1) by (simp add: Cons_nth_drop_Suc)
  show ?case
  proof (cases "Suc i = S")
    case True
    have nb: "Suc b < length c"
      using next_bucket_exists [OF q z True] .
    have e: "Suc b * S + 0 = Suc (b * S + i)" using True by auto
    have "Iterate_loop S c (Suc b) 0 = Inr (drop (Suc b * S + 0) (stored c))"
      using Suc.hyps Suc.prems q nb True by (intro Suc.hyps(1)) auto
    then have "Iterate_loop S c (Suc b) 0 = Inr (drop (Suc (b * S + i)) (stored c))"
      by (simp only: e)
    then show ?thesis
      using Suc.prems item(2) nb True d by (subst Iterate_loop.simps) simp
  next
    case False
    have "Iterate_loop S c b (Suc i) = Inr (drop (b * S + Suc i) (stored c))"
      using Suc.hyps Suc.prems q False by (intro Suc.hyps(1)) auto
    then show ?thesis
      using Suc.prems item(2) False d by (subst Iterate_loop.simps) simp
  qed
qed

lemma Find_loop_stored:
  assumes u: "\<forall>bk \<in> set c. length bk = S" and z: "length (stored c) < length c * S"
  shows "b < length c \<Longrightarrow> i < S \<Longrightarrow> b * S + i \<le> length (stored c) \<Longrightarrow>
         Find_loop S P c b i = Inr (\<exists>x \<in> set (drop (b * S + i) (stored c)). P x)"
proof (induction k \<equiv> "length (stored c) - (b * S + i)" arbitrary: b i)
  case 0
  then have q: "b * S + i = length (stored c)" by simp
  have "concat c ! (b * S + i) = 0"
    unfolding q using z by (intro stored_end) (simp add: length_concat_uniform [OF u])
  then have "c ! b ! i = 0"
    using nth_concat_uniform [OF u "0.prems"(1,2)] by simp
  then show ?case
    using "0.prems" q by (subst Find_loop.simps) simp
next
  case (Suc k)
  then have q: "b * S + i < length (stored c)" by simp
  have item: "c ! b ! i = stored c ! (b * S + i)" "c ! b ! i \<noteq> 0"
    using stored_nth [OF q] nth_concat_uniform [OF u Suc.prems(1,2)] by simp_all
  have d: "drop (b * S + i) (stored c) = c ! b ! i # drop (Suc (b * S + i)) (stored c)"
    using q item(1) by (simp add: Cons_nth_drop_Suc)
  show ?case
  proof (cases "Suc i = S")
    case True
    have nb: "Suc b < length c"
      using next_bucket_exists [OF q z True] .
    have e: "Suc b * S + 0 = Suc (b * S + i)" using True by auto
    have "Find_loop S P c (Suc b) 0 = Inr (\<exists>x \<in> set (drop (Suc b * S + 0) (stored c)). P x)"
      using Suc.hyps Suc.prems q nb True by (intro Suc.hyps(1)) auto
    then have "Find_loop S P c (Suc b) 0 = Inr (\<exists>x \<in> set (drop (Suc (b * S + i)) (stored c)). P x)"
      by (simp only: e)
    then show ?thesis
      using Suc.prems item(2) nb True d by (subst Find_loop.simps) simp
  next
    case False
    have "Find_loop S P c b (Suc i) = Inr (\<exists>x \<in> set (drop (b * S + Suc i) (stored c)). P x)"
      using Suc.hyps Suc.prems q False by (intro Suc.hyps(1)) auto
    then show ?thesis
      using Suc.prems item(2) False d by (subst Find_loop.simps) simp
  qed
qed

lemma chain_ok_facts:
  assumes "chain_ok S c"
  shows "\<forall>bk \<in> set c. length bk = S" "length (stored c) < length c * S" "0 < length c" "0 < S"
    "(length c - 1) * S \<le> length (stored c)"
  using assms by (auto simp add: chain_ok_def list_all_iff)

lemma Iterate_ok: "chain_ok S c \<Longrightarrow> Iterate S c = Inr (stored c)"
  using Iterate_loop_stored [of c S 0 0] chain_ok_facts [of S c]
  by (simp add: Iterate_def)

lemma Find_ok: "chain_ok S c \<Longrightarrow> Find S P c = Inr (\<exists>x \<in> set (stored c). P x)"
  using Find_loop_stored [of c S 0 0 P] chain_ok_facts [of S c]
  by (simp add: Find_def)

lemma Append_walk_last: "that < length c \<Longrightarrow> Append_walk c that = length c - 1"
proof (induction k \<equiv> "length c - that" arbitrary: that)
  case 0
  then show ?case by simp
next
  case (Suc k)
  show ?case
  proof (cases "Suc that < length c")
    case True
    then have "Append_walk c (Suc that) = length c - 1"
      using Suc.hyps by (intro Suc.hyps(1)) auto
    then show ?thesis using True by (subst Append_walk.simps) simp
  next
    case False
    then show ?thesis using Suc.prems by (subst Append_walk.simps) simp
  qed
qed

lemma Append_scan_first_zero:
  "i \<le> k \<Longrightarrow> k < S \<Longrightarrow> Items ! k = 0 \<Longrightarrow> (\<And>j. i \<le> j \<Longrightarrow> j < k \<Longrightarrow> Items ! j \<noteq> 0) \<Longrightarrow>
   Append_scan S Items i = k"
proof (induction d \<equiv> "k - i" arbitrary: i)
  case 0
  then show ?case by (subst Append_scan.simps) simp
next
  case (Suc d)
  then have "Items ! i \<noteq> 0" "i < S" by auto
  moreover have "Append_scan S Items (Suc i) = k"
    using Suc.hyps Suc.prems by (intro Suc.hyps(1)) auto
  ultimately show ?case by (subst Append_scan.simps) simp
qed

lemma length_Clear_Items: "0 < S \<Longrightarrow> length (Clear_Items S) = S"
  by (simp add: Clear_Items_def)

lemma Append_ok:
  assumes ok: "chain_ok S c" and v: "Val \<noteq> 0"
  shows "chain_ok S (Append S Val c) \<and> stored (Append S Val c) = stored c @ [Val]"
proof -
  note f = chain_ok_facts [OF ok]
  define n where "n = length c"
  define z where "z = length (stored c)"
  define t where "t = n - 1"
  define k where "k = z - t * S"
  define F where "F = concat c"
  have lenF: "length F = n * S" by (simp add: F_def n_def length_concat_uniform [OF f(1)])
  have t: "t < length c" "Suc t = n" using f(3) by (simp_all add: t_def n_def)
  have zb: "t * S \<le> z" "z < n * S" using f by (simp_all add: z_def t_def n_def)
  have "n * S = t * S + S" using t(2) by (metis mult_Suc add.commute)
  then have k: "k < S" "t * S + k = z" using zb by (simp_all add: k_def)
  have nz: "F ! j \<noteq> 0" if "j < z" for j
    using stored_nth [of j c] that by (simp add: z_def F_def)
  have Fz: "F ! z = 0"
    using stored_end [of c] zb lenF by (simp add: z_def F_def)
  have E: "stored c = take z F" unfolding z_def F_def by (rule stored_eq_take)
  have walk: "Append_walk c 0 = t"
    using Append_walk_last [of 0 c] f(3) by (simp add: t_def n_def)
  have scan: "Append_scan S (c ! t) 0 = k"
  proof (rule Append_scan_first_zero)
    show "0 \<le> k" by simp
    show "k < S" by (rule k)
    show "c ! t ! k = 0"
      using nth_concat_uniform [OF f(1) t(1) k(1)] Fz k(2) by (simp add: F_def)
    show "c ! t ! j \<noteq> 0" if "0 \<le> j" "j < k" for j
    proof -
      have "j < S" using that k by simp
      then have "c ! t ! j = F ! (t * S + j)"
        using nth_concat_uniform [OF f(1) t(1), of j] by (simp add: F_def)
      moreover have "t * S + j < z" using that k by simp
      ultimately show ?thesis using nz by simp
    qed
  qed
  define c1 where "c1 = set_item c t k Val"
  have u1: "\<forall>bk \<in> set c1. length bk = S"
    unfolding c1_def by (rule uniform_set_item [OF f(1) t(1)])
  have F1: "concat c1 = F[z := Val]"
    unfolding c1_def F_def using concat_set_item [OF f(1) t(1) k(1)] k(2) by simp
  have l1: "length c1 = n" "t < length c1" using t by (simp_all add: c1_def n_def)
  have nz1: "(F[z := Val]) ! j \<noteq> 0" if "j \<le> z" for j
    using that nz [of j] v zb lenF by (cases "j = z") simp_all
  have tk: "take (Suc z) (F[z := Val]) = take z F @ [Val]"
    using zb lenF by (simp add: take_Suc_conv_app_nth)
  show ?thesis
  proof (cases "k < S - 1")
    case True
    define c2 where "c2 = set_item c1 t (Suc k) 0"
    have A: "Append S Val c = c2"
      using True k(1) by (simp add: Append_def Let_def walk scan c1_def c2_def)
    have sk: "Suc k < S" using True by simp
    have u2: "\<forall>bk \<in> set c2. length bk = S"
      unfolding c2_def by (rule uniform_set_item [OF u1 l1(2)])
    have F2: "concat c2 = F[z := Val, Suc z := 0]"
      unfolding c2_def using concat_set_item [OF u1 l1(2) sk] k(2) F1 by simp
    have sz: "Suc z < n * S"
    proof -
      have "Suc z = t * S + Suc k" using k(2) by simp
      also have "\<dots> < t * S + S" using sk by simp
      also have "\<dots> = n * S" using t(2) by (metis mult_Suc add.commute)
      finally show ?thesis .
    qed
    have "stored c2 = take (Suc z) (concat c2)"
    proof (rule stored_is_take)
      show "concat c2 ! j \<noteq> 0" if "j < Suc z" for j
        using that nz1 [of j] by (simp add: F2)
      show "Suc z < length (concat c2)" using sz lenF by (simp add: F2)
      show "concat c2 ! Suc z = 0" using sz lenF by (simp add: F2)
    qed
    then have S2: "stored c2 = stored c @ [Val]"
      using tk by (simp add: F2 E)
    have ls: "length (stored c2) = Suc z" by (simp add: S2 z_def)
    have len2: "length c2 = n" by (simp add: c2_def l1)
    have "c2 \<noteq> []" using len2 t(2) by auto
    moreover have "(length c2 - 1) * S \<le> length (stored c2)"
      using zb(1) by (simp add: ls len2 t_def)
    moreover have "length (stored c2) < length c2 * S"
      using sz by (simp add: ls len2)
    ultimately have "chain_ok S c2"
      using f(4) u2 by (simp add: chain_ok_def list_all_iff)
    then show ?thesis using A S2 by simp
  next
    case False
    then have kS: "Suc k = S" using k(1) by simp
    define c2 where "c2 = c1 @ [Clear_Items S]"
    have A: "Append S Val c = c2"
      using False k(1) by (simp add: Append_def Let_def walk scan c1_def c2_def)
    have zl: "Suc z = n * S"
    proof -
      have "Suc z = t * S + S" using k(2) kS by simp
      also have "\<dots> = n * S" using t(2) by (metis mult_Suc add.commute)
      finally show ?thesis .
    qed
    have all: "\<forall>x \<in> set (F[z := Val]). x \<noteq> 0"
    proof
      fix x assume "x \<in> set (F[z := Val])"
      then obtain j where "j < length (F[z := Val])" "x = (F[z := Val]) ! j"
        by (auto simp add: in_set_conv_nth)
      then show "x \<noteq> 0" using nz1 [of j] zl lenF by simp
    qed
    have "stored c2 = F[z := Val]"
      using all by (simp add: stored_def c2_def F1 Clear_Items_def takeWhile_append2)
    moreover have "F[z := Val] = take z F @ [Val]"
      using tk zl lenF by simp
    ultimately have S2: "stored c2 = stored c @ [Val]" by (simp add: E)
    have u2: "\<forall>bk \<in> set c2. length bk = S"
      using u1 f(4) by (simp add: c2_def length_Clear_Items)
    have ls: "length (stored c2) = Suc z" by (simp add: S2 z_def)
    have len2: "length c2 = Suc n" by (simp add: c2_def l1)
    have "c2 \<noteq> []" by (simp add: c2_def)
    moreover have "(length c2 - 1) * S \<le> length (stored c2)"
      by (simp add: ls len2 zl)
    moreover have "length (stored c2) < length c2 * S"
      using f(4) by (simp add: ls len2 zl)
    ultimately have "chain_ok S c2"
      using f(4) u2 by (simp add: chain_ok_def list_all_iff)
    then show ?thesis using A S2 by simp
  qed
qed

lemma Erase_find_first:
  assumes u: "\<forall>bk \<in> set c. length bk = S" and p: "p < length c * S" and pv: "concat c ! p = Val"
  shows "b < length c \<Longrightarrow> i < S \<Longrightarrow> b * S + i \<le> p \<Longrightarrow>
         (\<And>j. b * S + i \<le> j \<Longrightarrow> j < p \<Longrightarrow> concat c ! j \<noteq> Val) \<Longrightarrow>
         Erase_find S Val c b i = Inr (p div S, p mod S)"
proof (induction k \<equiv> "p - (b * S + i)" arbitrary: b i)
  case 0
  then have q: "b * S + i = p" by simp
  have "c ! b ! i = Val"
    using nth_concat_uniform [OF u "0.prems"(1,2)] pv q by simp
  moreover have "p div S = b" "p mod S = i"
    using "0.prems"(2) q [symmetric] by simp_all
  ultimately show ?case
    using "0.prems" by (subst Erase_find.simps) simp
next
  case (Suc k)
  then have q: "b * S + i < p" by simp
  have item: "c ! b ! i \<noteq> Val"
    using Suc.prems(4) [of "b * S + i"] q nth_concat_uniform [OF u Suc.prems(1,2)] by simp
  show ?case
  proof (cases "Suc i = S")
    case True
    have nb: "Suc b < length c"
      using next_bucket_exists [OF q p True] .
    have e: "Suc b * S + 0 = Suc (b * S + i)" using True by auto
    have "Erase_find S Val c (Suc b) 0 = Inr (p div S, p mod S)"
    proof (rule Suc.hyps(1))
      show "k = p - (Suc b * S + 0)" using Suc.hyps(2) unfolding e by simp
      show "Suc b < length c" by (rule nb)
      show "0 < S" using True by auto
      show "Suc b * S + 0 \<le> p" unfolding e using q by simp
      show "concat c ! j \<noteq> Val" if "Suc b * S + 0 \<le> j" "j < p" for j
        using that Suc.prems(4) [of j] unfolding e by simp
    qed
    then show ?thesis
      using Suc.prems item nb True by (subst Erase_find.simps) simp
  next
    case False
    have "Erase_find S Val c b (Suc i) = Inr (p div S, p mod S)"
    proof (rule Suc.hyps(1))
      show "k = p - (b * S + Suc i)" using Suc.hyps(2) by simp
      show "b < length c" by (rule Suc.prems)
      show "Suc i < S" using False Suc.prems(2) by simp
      show "b * S + Suc i \<le> p" using q by simp
      show "concat c ! j \<noteq> Val" if "b * S + Suc i \<le> j" "j < p" for j
        using that Suc.prems(4) [of j] by simp
    qed
    then show ?thesis
      using Suc.prems item False by (subst Erase_find.simps) simp
  qed
qed

lemma Erase_finish:
  assumes u: "\<forall>bk \<in> set c0. length bk = S" and S: "0 < S"
    and len: "length c0 = Suc b" and i': "i' < S"
    and fb: "fb < length c0" and fi: "fi < S"
    and y: "b * S + i' = y" and p: "fb * S + fi = p" and py: "p \<le> y"
    and nz: "\<And>j. j \<le> y \<Longrightarrow> concat c0 ! j \<noteq> 0"
  shows "chain_ok S (set_item (set_item c0 fb fi (concat c0 ! y)) b i' 0)
       \<and> stored (set_item (set_item c0 fb fi (concat c0 ! y)) b i' 0) = (take y (concat c0))[p := concat c0 ! y]"
proof -
  define G where "G = concat c0"
  define c1 where "c1 = set_item c0 fb fi (G ! y)"
  define c2 where "c2 = set_item c1 b i' 0"
  have b: "b < length c0" using len by simp
  have lenG: "length G = Suc b * S" by (simp add: G_def length_concat_uniform [OF u] len)
  have yl: "y < length G" using y i' lenG by auto
  have u1: "\<forall>bk \<in> set c1. length bk = S"
    unfolding c1_def by (rule uniform_set_item [OF u fb])
  have G1: "concat c1 = G[p := G ! y]"
    unfolding c1_def G_def using concat_set_item [OF u fb fi] p by simp
  have b1: "b < length c1" using b by (simp add: c1_def)
  have u2: "\<forall>bk \<in> set c2. length bk = S"
    unfolding c2_def by (rule uniform_set_item [OF u1 b1])
  have G2: "concat c2 = G[p := G ! y, y := 0]"
    unfolding c2_def using concat_set_item [OF u1 b1 i'] y G1 by simp
  have "stored c2 = take y (concat c2)"
  proof (rule stored_is_take)
    show "concat c2 ! j \<noteq> 0" if "j < y" for j
      using that nz [of j] nz [of y] yl by (cases "j = p") (simp_all add: G2 G_def)
    show "y < length (concat c2)" using yl by (simp add: G2)
    show "concat c2 ! y = 0" using yl by (simp add: G2)
  qed
  then have st: "stored c2 = (take y G)[p := G ! y]"
    using yl by (simp add: G2 take_update_swap list_update_beyond)
  have ls: "length (stored c2) = y" using yl by (simp add: st)
  have len2: "length c2 = Suc b" by (simp add: c2_def c1_def len)
  have "c2 \<noteq> []" using len2 by auto
  moreover have "(length c2 - 1) * S \<le> length (stored c2)"
    using y by (simp add: ls len2)
  moreover have "length (stored c2) < length c2 * S"
    using y i' by (simp add: ls len2)
  ultimately have "chain_ok S c2"
    using S u2 by (simp add: chain_ok_def list_all_iff)
  then show ?thesis
    using st by (simp add: c2_def c1_def G_def)
qed

lemma last_bucket_index:
  assumes "(n - 1) * S \<le> z" and "z < Suc b * S" and "b < n"
  shows "Suc b = n"
proof (rule ccontr)
  assume "Suc b \<noteq> n"
  then have "Suc b \<le> n - 1" using assms(3) by simp
  then have "Suc b * S \<le> (n - 1) * S" by (rule mult_le_mono1)
  then show False using assms by simp
qed

lemma last_take: "0 < z \<Longrightarrow> z \<le> length xs \<Longrightarrow> last (take z xs) = xs ! (z - 1)"
  by (cases z) (simp_all add: take_Suc_conv_app_nth)

lemma Erase_move_ok:
  assumes ok: "chain_ok S c" and p: "p < length (stored c)"
    and fb: "foundThat = p div S" and fi: "foundI = p mod S"
  shows "b < length c \<Longrightarrow> i < S \<Longrightarrow> p \<le> b * S + i \<Longrightarrow> b * S + i \<le> length (stored c) \<Longrightarrow>
         (b * S + i = length (stored c) \<Longrightarrow> 0 < i) \<Longrightarrow>
         \<exists>c'. Erase_move S c foundThat foundI b i = Inr c' \<and> chain_ok S c'
              \<and> stored c' = (butlast (stored c))[p := last (stored c)]"
proof (induction k \<equiv> "length (stored c) - (b * S + i)" arbitrary: b i)
  case 0
  note f = chain_ok_facts [OF ok]
  define z where "z = length (stored c)"
  have q: "b * S + i = z" using "0.hyps" "0.prems"(4) by (simp add: z_def)
  have ipos: "0 < i" using "0.prems"(5) q by (simp add: z_def)
  have lenF: "length (concat c) = length c * S" by (rule length_concat_uniform [OF f(1)])
  have Fz: "concat c ! z = 0"
    unfolding z_def using f(2) lenF by (intro stored_end) simp
  have item: "c ! b ! i = 0"
    using nth_concat_uniform [OF f(1) "0.prems"(1,2)] Fz q by simp
  have E: "stored c = take z (concat c)" unfolding z_def by (rule stored_eq_take)
  have zl: "z < length (concat c)" using f(2) lenF by (simp add: z_def)
  have zpos: "0 < z" using p unfolding z_def by linarith
  have y: "b * S + (i - 1) = z - 1" using q ipos by simp
  have prev: "c ! b ! (i - 1) = concat c ! (z - 1)"
    using nth_concat_uniform [OF f(1) "0.prems"(1), of "i - 1"] "0.prems"(2) y by simp
  have "z < Suc b * S" using q "0.prems"(2) by simp
  then have len: "length c = Suc b"
    using last_bucket_index [of "length c" S z b] f(5) "0.prems"(1) by (simp add: z_def)
  have fbl: "foundThat < length c"
    unfolding fb using p f(2) by (simp add: less_mult_imp_div_less)
  have fil: "foundI < S" unfolding fi using f(4) by simp
  have pp: "foundThat * S + foundI = p" unfolding fb fi by simp
  have fin: "chain_ok S (set_item (set_item c foundThat foundI (concat c ! (z - 1))) b (i - 1) 0)
       \<and> stored (set_item (set_item c foundThat foundI (concat c ! (z - 1))) b (i - 1) 0)
           = (take (z - 1) (concat c))[p := concat c ! (z - 1)]"
  proof (rule Erase_finish [OF f(1) f(4) len _ fbl fil y pp])
    show "i - 1 < S" using "0.prems"(2) by simp
    show "p \<le> z - 1" using p by (simp add: z_def)
    show "concat c ! j \<noteq> 0" if "j \<le> z - 1" for j
    proof -
      have "j < length (stored c)" using that zpos unfolding z_def by linarith
      then show ?thesis using stored_nth [of j c] by simp
    qed
  qed
  have bl: "butlast (stored c) = take (z - 1) (concat c)"
    using zl by (simp add: E butlast_take)
  have la: "last (stored c) = concat c ! (z - 1)"
    using zl zpos by (simp add: E last_take)
  have em: "Erase_move S c foundThat foundI b i
        = Inr (set_item (set_item c foundThat foundI (c ! b ! (i - 1))) b (i - 1) 0)"
    using "0.prems"(1,2) item ipos by (subst Erase_move.simps) (simp add: Let_def)
  from em [unfolded prev] fin show ?case
    unfolding bl la by blast
next
  case (Suc k)
  note f = chain_ok_facts [OF ok]
  define z where "z = length (stored c)"
  have q: "b * S + i < z" using Suc.hyps(2) by (simp add: z_def)
  have lenF: "length (concat c) = length c * S" by (rule length_concat_uniform [OF f(1)])
  have zl: "z < length (concat c)" using f(2) lenF by (simp add: z_def)
  have Fz: "concat c ! z = 0"
    unfolding z_def using f(2) lenF by (intro stored_end) simp
  have E: "stored c = take z (concat c)" unfolding z_def by (rule stored_eq_take)
  have item: "c ! b ! i \<noteq> 0"
    using stored_nth [of "b * S + i" c] q nth_concat_uniform [OF f(1) Suc.prems(1,2)]
    by (simp add: z_def)
  show ?case
  proof (cases "Suc i = S")
    case True
    have nb: "Suc b < length c"
      using next_bucket_exists [OF q _ True] f(2) by (simp add: z_def)
    have e: "Suc b * S + 0 = Suc (b * S + i)" using True by auto
    have nxt: "c ! Suc b ! 0 = concat c ! Suc (b * S + i)"
      by (rule sym) (rule nth_concat_uniform [OF f(1) nb f(4), unfolded e])
    show ?thesis
    proof (cases "c ! Suc b ! 0 = 0")
      case zero: True
      have qz: "Suc (b * S + i) = z"
      proof (rule ccontr)
        assume "Suc (b * S + i) \<noteq> z"
        then have "Suc (b * S + i) < z" using q by simp
        then show False
          using stored_nth [of "Suc (b * S + i)" c] zero nxt by (simp add: z_def)
      qed
      define c0 where "c0 = take (Suc b) c"
      have u0: "\<forall>bk \<in> set c0. length bk = S"
        using f(1) by (auto simp add: c0_def dest: in_set_takeD)
      have len0: "length c0 = Suc b" using nb by (simp add: c0_def)
      have G: "concat c0 = take z (concat c)"
        unfolding c0_def using concat_take_uniform [OF f(1), of "Suc b"] e qz by simp
      have y: "b * S + (S - 1) = z - 1" using qz True by auto
      have fbl: "foundThat < length c0"
      proof -
        have "p < Suc b * S" using Suc.prems(3) True by auto
        then show ?thesis unfolding fb len0 by (simp add: less_mult_imp_div_less)
      qed
      have fil: "foundI < S" unfolding fi using f(4) by simp
      have pp: "foundThat * S + foundI = p" unfolding fb fi by simp
      have last0: "c0 ! b ! (S - 1) = concat c0 ! (z - 1)"
        using nth_concat_uniform [OF u0, of b "S - 1"] len0 f(4) y by simp
      have fin: "chain_ok S (set_item (set_item c0 foundThat foundI (concat c0 ! (z - 1))) b (S - 1) 0)
         \<and> stored (set_item (set_item c0 foundThat foundI (concat c0 ! (z - 1))) b (S - 1) 0)
             = (take (z - 1) (concat c0))[p := concat c0 ! (z - 1)]"
      proof (rule Erase_finish [OF u0 f(4) len0 _ fbl fil y pp])
        show "S - 1 < S" using f(4) by simp
        show "p \<le> z - 1" using p by (simp add: z_def)
        show "concat c0 ! j \<noteq> 0" if "j \<le> z - 1" for j
        proof -
          have "j < length (stored c)" using that q unfolding z_def by linarith
          then show ?thesis using stored_nth [of j c] by (simp add: G z_def)
        qed
      qed
      have bl: "butlast (stored c) = take (z - 1) (concat c0)"
        using zl by (simp add: E G butlast_take)
      have la: "last (stored c) = concat c0 ! (z - 1)"
        using zl q by (simp add: E G last_take)
      have em: "Erase_move S c foundThat foundI b i
            = Inr (set_item (set_item c0 foundThat foundI (c0 ! b ! (S - 1))) b (S - 1) 0)"
        using Suc.prems(1,2) item True nb zero
        by (subst Erase_move.simps) (simp add: Let_def c0_def)
      from em [unfolded last0] fin show ?thesis
        unfolding bl la by blast
    next
      case nonzero: False
      have lt: "Suc (b * S + i) < z"
      proof (rule ccontr)
        assume "\<not> Suc (b * S + i) < z"
        then have "Suc (b * S + i) = z" using q by simp
        then show False using Fz nonzero nxt by simp
      qed
      have "\<exists>c'. Erase_move S c foundThat foundI (Suc b) 0 = Inr c' \<and> chain_ok S c'
              \<and> stored c' = (butlast (stored c))[p := last (stored c)]"
      proof (rule Suc.hyps(1))
        show "k = length (stored c) - (Suc b * S + 0)"
          using Suc.hyps(2) unfolding e by simp
        show "Suc b < length c" by (rule nb)
        show "0 < S" by (rule f(4))
        show "p \<le> Suc b * S + 0" unfolding e using Suc.prems(3) by simp
        show "Suc b * S + 0 \<le> length (stored c)" unfolding e using lt by (simp add: z_def)
        show "0 < (0::nat)" if "Suc b * S + 0 = length (stored c)"
          using that lt unfolding e by (simp add: z_def)
      qed
      then show ?thesis
        using Suc.prems(1,2) item True nb nonzero by (subst Erase_move.simps) simp
    qed
  next
    case False
    have "\<exists>c'. Erase_move S c foundThat foundI b (Suc i) = Inr c' \<and> chain_ok S c'
              \<and> stored c' = (butlast (stored c))[p := last (stored c)]"
    proof (rule Suc.hyps(1))
      show "k = length (stored c) - (b * S + Suc i)" using Suc.hyps(2) by simp
      show "b < length c" by (rule Suc.prems)
      show "Suc i < S" using False Suc.prems(2) by simp
      show "p \<le> b * S + Suc i" using Suc.prems(3) by simp
      show "b * S + Suc i \<le> length (stored c)" using q by (simp add: z_def)
      show "0 < Suc i" by simp
    qed
    then show ?thesis
      using Suc.prems(1,2) item False by (subst Erase_move.simps) simp
  qed
qed

lemma mset_move_last:
  assumes "p < length E"
  shows "mset ((butlast E)[p := last E]) = mset (remove1 (E ! p) E)"
proof -
  have ne: "E \<noteq> []" using assms by auto
  then have E: "E = butlast E @ [last E]" by simp
  show ?thesis
  proof (cases "p = length E - 1")
    case True
    then have "E ! p = last E" using ne by (simp add: last_conv_nth)
    moreover have "(butlast E)[p := last E] = butlast E"
      using True by (simp add: list_update_beyond)
    moreover have "mset (remove1 (last E) E) = mset (butlast E)"
      by (subst (2) E) (simp del: append_butlast_last_id)
    ultimately show ?thesis by simp
  next
    case False
    then have pl: "p < length (butlast E)" using assms by simp
    then have nth: "butlast E ! p = E ! p" by (simp add: nth_butlast)
    then have mem: "E ! p \<in># mset (butlast E)"
      using pl nth_mem [OF pl] by simp
    have "mset ((butlast E)[p := last E]) = add_mset (last E) (mset (butlast E) - {#E ! p#})"
      using pl by (simp add: mset_update nth)
    also have "\<dots> = add_mset (last E) (mset (butlast E)) - {#E ! p#}"
      using mem by simp
    also have "add_mset (last E) (mset (butlast E)) = mset E"
      by (subst (3) E) (simp del: append_butlast_last_id)
    finally show ?thesis by simp
  qed
qed

lemma Erase_ok:
  assumes ok: "chain_ok S c" and v: "Val \<in> set (stored c)"
  shows "\<exists>c'. Erase S Val c = Inr c' \<and> chain_ok S c' \<and> mset (stored c') = mset (remove1 Val (stored c))"
proof -
  note f = chain_ok_facts [OF ok]
  define p where "p = length (takeWhile (\<lambda>x. x \<noteq> Val) (stored c))"
  have pl: "p < length (stored c)"
  proof -
    have "takeWhile (\<lambda>x. x \<noteq> Val) (stored c) \<noteq> stored c"
      using v by auto
    then have "length (takeWhile (\<lambda>x. x \<noteq> Val) (stored c)) \<noteq> length (stored c)"
      using takeWhile_eq_take [of "\<lambda>x. x \<noteq> Val" "stored c"] by auto
    then show ?thesis
      using length_takeWhile_le [of "\<lambda>x. x \<noteq> Val" "stored c"] by (simp add: p_def)
  qed
  have pv: "stored c ! p = Val"
    using nth_length_takeWhile [of "\<lambda>x. x \<noteq> Val" "stored c"] pl by (simp add: p_def)
  have before: "stored c ! j \<noteq> Val" if "j < p" for j
    using that nth_mem [of j "takeWhile (\<lambda>x. x \<noteq> Val) (stored c)"]
      set_takeWhileD [of "stored c ! j" "\<lambda>x. x \<noteq> Val" "stored c"]
    by (simp add: p_def takeWhile_nth)
  have cp: "concat c ! p = Val" using stored_nth [OF pl] pv by simp
  have pn: "p < length c * S" using pl f(2) by simp
  have b: "p div S < length c" using pn by (simp add: less_mult_imp_div_less)
  have i: "p mod S < S" using f(4) by simp
  have find: "Erase_find S Val c 0 0 = Inr (p div S, p mod S)"
  proof (rule Erase_find_first [OF f(1) pn cp f(3) f(4)])
    show "0 * S + 0 \<le> p" by simp
    show "concat c ! j \<noteq> Val" if "0 * S + 0 \<le> j" "j < p" for j
    proof -
      have "j < length (stored c)" using that pl by simp
      then show ?thesis using stored_nth [of j c] before [OF that(2)] by simp
    qed
  qed
  have "\<exists>c'. Erase_move S c (p div S) (p mod S) (p div S) (p mod S) = Inr c' \<and> chain_ok S c'
          \<and> stored c' = (butlast (stored c))[p := last (stored c)]"
  proof (rule Erase_move_ok [OF ok pl refl refl b i])
    show "p \<le> p div S * S + p mod S" by simp
    show "p div S * S + p mod S \<le> length (stored c)" using pl by simp
    show "0 < p mod S" if "p div S * S + p mod S = length (stored c)"
      using that pl by simp
  qed
  then show ?thesis
    using find mset_move_last [OF pl] pv by (auto simp add: Erase_def)
qed

lemma chain_ok_new: "1 \<le> S \<Longrightarrow> chain_ok S (BucketList_new S) \<and> stored (BucketList_new S) = []"
  by (simp add: chain_ok_def BucketList_new_def Clear_Items_def stored_def)

lemma run_ops_ok:
  "chain_ok S c \<Longrightarrow> distinct xs \<Longrightarrow> mset (stored c) = mset xs \<Longrightarrow> valid_ops xs ops \<Longrightarrow>
   \<exists>c'. run_ops S ops c = Inr c' \<and> chain_ok S c' \<and> distinct (ids_after xs ops)
        \<and> mset (stored c') = mset (ids_after xs ops)"
proof (induction ops arbitrary: c xs)
  case Nil
  then show ?case by simp
next
  case (Cons op ops)
  show ?case
  proof (cases op)
    case (DoAppend v)
    then have v: "v \<noteq> 0" "v \<notin> set xs" "valid_ops (v # xs) ops"
      using Cons.prems(4) by simp_all
    have a: "chain_ok S (Append S v c)" "stored (Append S v c) = stored c @ [v]"
      using Append_ok [OF Cons.prems(1) v(1)] by simp_all
    have "\<exists>c'. run_ops S ops (Append S v c) = Inr c' \<and> chain_ok S c'
            \<and> distinct (ids_after (v # xs) ops) \<and> mset (stored c') = mset (ids_after (v # xs) ops)"
      using a v Cons.prems(2,3) by (intro Cons.IH) simp_all
    then show ?thesis using DoAppend by simp
  next
    case (DoErase v)
    then have v: "v \<in> set xs" "valid_ops (removeAll v xs) ops"
      using Cons.prems(4) by simp_all
    have "v \<in> set (stored c)"
      using v(1) mset_eq_setD [OF Cons.prems(3)] by simp
    then obtain c1 where e: "Erase S v c = Inr c1" "chain_ok S c1"
      "mset (stored c1) = mset (remove1 v (stored c))"
      using Erase_ok [OF Cons.prems(1)] by blast
    have "mset (stored c1) = mset (removeAll v xs)"
      using e(3) Cons.prems(2,3) by (simp add: distinct_remove1_removeAll [symmetric])
    then have "\<exists>c'. run_ops S ops c1 = Inr c' \<and> chain_ok S c'
            \<and> distinct (ids_after (removeAll v xs) ops)
            \<and> mset (stored c') = mset (ids_after (removeAll v xs) ops)"
      using e(2) v(2) Cons.prems(2) by (intro Cons.IH) (simp_all add: distinct_removeAll)
    then show ?thesis using DoErase e(1) by simp
  qed
qed

text \<open>
  Claim C9. Take a chain with buckets of \<open>S \<ge> 1\<close> slots built from the empty chain by
  appends and erases, each id appended being non-zero and not stored and each id erased
  being stored. Every operation returns, and the items \<open>Iterate\<close> enumerates are, as a
  multiset, the ids appended and not erased. For every non-zero \<open>v\<close> that is not stored:
  after \<open>Append v\<close>, \<open>Find\<close> with the predicate \<open>item = v\<close> returns true, and after
  \<open>Erase v\<close> on that chain it returns false and the multiset of the stored items is what
  it was before the pair. For every stored \<open>v\<close>, \<open>Find\<close> returns false after \<open>Erase v\<close>.
\<close>

theorem BucketList_append_erase:
  assumes "1 \<le> S" and "valid_ops [] ops"
  shows "\<exists>c xs. run_ops S ops (BucketList_new S) = Inr c \<and> Iterate S c = Inr xs
           \<and> mset xs = mset (ids_after [] ops)
           \<and> (\<forall>v. v \<noteq> 0 \<and> v \<notin> set xs \<longrightarrow>
                 Find S (\<lambda>item. item = v) (Append S v c) = Inr True
               \<and> (\<exists>ys. Iterate S (Append S v c) = Inr ys \<and> mset ys = mset xs + {#v#})
               \<and> (\<exists>c'. Erase S v (Append S v c) = Inr c'
                     \<and> Find S (\<lambda>item. item = v) c' = Inr False
                     \<and> (\<exists>ys. Iterate S c' = Inr ys \<and> mset ys = mset xs)))
           \<and> (\<forall>v \<in> set xs.
                 \<exists>c'. Erase S v c = Inr c'
                     \<and> Find S (\<lambda>item. item = v) c' = Inr False
                     \<and> (\<exists>ys. Iterate S c' = Inr ys \<and> mset ys = mset xs - {#v#}))"
proof -
  obtain c where c: "run_ops S ops (BucketList_new S) = Inr c" "chain_ok S c"
    "distinct (ids_after [] ops)" "mset (stored c) = mset (ids_after [] ops)"
    using run_ops_ok [of S "BucketList_new S" "[]" ops] chain_ok_new [OF assms(1)] assms(2)
    by auto
  have d: "distinct (stored c)"
    using c(3,4) mset_eq_imp_distinct_iff by blast
  have app: "Find S (\<lambda>item. item = v) (Append S v c) = Inr True
      \<and> (\<exists>ys. Iterate S (Append S v c) = Inr ys \<and> mset ys = mset (stored c) + {#v#})
      \<and> (\<exists>c'. Erase S v (Append S v c) = Inr c'
            \<and> Find S (\<lambda>item. item = v) c' = Inr False
            \<and> (\<exists>ys. Iterate S c' = Inr ys \<and> mset ys = mset (stored c)))"
    if v: "v \<noteq> 0" "v \<notin> set (stored c)" for v
  proof -
    have a: "chain_ok S (Append S v c)" "stored (Append S v c) = stored c @ [v]"
      using Append_ok [OF c(2) v(1)] by simp_all
    obtain c' where e: "Erase S v (Append S v c) = Inr c'" "chain_ok S c'"
      "mset (stored c') = mset (remove1 v (stored c @ [v]))"
      using Erase_ok [OF a(1), of v] a(2) by auto
    have m: "mset (stored c') = mset (stored c)"
      using e(3) v(2) by (simp add: remove1_append)
    then have "v \<notin> set (stored c')"
      using v(2) mset_eq_setD by blast
    then have "Find S (\<lambda>item. item = v) c' = Inr False"
      by (simp add: Find_ok [OF e(2)])
    then show ?thesis
      using a e(1,2) m by (simp add: Find_ok Iterate_ok)
  qed
  have era: "\<exists>c'. Erase S v c = Inr c' \<and> Find S (\<lambda>item. item = v) c' = Inr False
      \<and> (\<exists>ys. Iterate S c' = Inr ys \<and> mset ys = mset (stored c) - {#v#})"
    if v: "v \<in> set (stored c)" for v
  proof -
    obtain c' where e: "Erase S v c = Inr c'" "chain_ok S c'"
      "mset (stored c') = mset (remove1 v (stored c))"
      using Erase_ok [OF c(2) v] by blast
    have "set (stored c') = set (remove1 v (stored c))"
      using e(3) by (rule mset_eq_setD)
    then have "v \<notin> set (stored c')"
      using d by simp
    then have "Find S (\<lambda>item. item = v) c' = Inr False"
      by (simp add: Find_ok [OF e(2)])
    then show ?thesis
      using e by (simp add: Iterate_ok)
  qed
  show ?thesis
    using c(1,4) app era Iterate_ok [OF c(2)] by blast
qed

theorem BucketList_append_erase_witness:
  "1 \<le> (4 :: nat) \<and> valid_ops [] example_ops
   \<and> (\<exists>c xs. run_ops 4 example_ops (BucketList_new 4) = Inr c \<and> Iterate 4 c = Inr xs
           \<and> mset xs = mset (ids_after [] example_ops)
           \<and> (\<forall>v. v \<noteq> 0 \<and> v \<notin> set xs \<longrightarrow>
                 Find 4 (\<lambda>item. item = v) (Append 4 v c) = Inr True
               \<and> (\<exists>ys. Iterate 4 (Append 4 v c) = Inr ys \<and> mset ys = mset xs + {#v#})
               \<and> (\<exists>c'. Erase 4 v (Append 4 v c) = Inr c'
                     \<and> Find 4 (\<lambda>item. item = v) c' = Inr False
                     \<and> (\<exists>ys. Iterate 4 c' = Inr ys \<and> mset ys = mset xs)))
           \<and> (\<forall>v \<in> set xs.
                 \<exists>c'. Erase 4 v c = Inr c'
                     \<and> Find 4 (\<lambda>item. item = v) c' = Inr False
                     \<and> (\<exists>ys. Iterate 4 c' = Inr ys \<and> mset ys = mset xs - {#v#})))"
proof -
  have h: "1 \<le> (4 :: nat)" "valid_ops [] example_ops"
    by (simp_all add: example_ops_def)
  show ?thesis
    using h BucketList_append_erase [OF h] by blast
qed

end
